theory Spec2Isabelle
  imports Complex_Main "HOL-Library.Sublist" "HOL-Library.Multiset"
begin

section \<open>Strings\<close>

text \<open>
  A Go string is a sequence of bytes and \<^verbatim>\<open>len\<close> counts bytes, so a string is a
  \<^typ>\<open>string\<close> (a list of 8-bit characters) and \<^verbatim>\<open>len\<close> is \<^const>\<open>length\<close>.

  \<^verbatim>\<open>strings.TrimSpace\<close> removes leading and trailing white space as Unicode defines
  it. In UTF-8 the white space code points are the byte sequences listed below
  (U+0009..U+000D, U+0020, U+0085, U+00A0, U+1680, U+2000..U+200A, U+2028, U+2029,
  U+202F, U+205F, U+3000). The library first strips leading white space runes, then
  trailing ones; a byte sequence that is no valid encoding of a white space rune stops
  the trimming.
\<close>

definition spaceEncodings :: "string list" where
  "spaceEncodings =
    [[CHR 0x09], [CHR 0x0A], [CHR 0x0B], [CHR 0x0C], [CHR 0x0D], [CHR 0x20],
     [CHR 0xC2, CHR 0x85], [CHR 0xC2, CHR 0xA0],
     [CHR 0xE1, CHR 0x9A, CHR 0x80],
     [CHR 0xE2, CHR 0x80, CHR 0x80], [CHR 0xE2, CHR 0x80, CHR 0x81],
     [CHR 0xE2, CHR 0x80, CHR 0x82], [CHR 0xE2, CHR 0x80, CHR 0x83],
     [CHR 0xE2, CHR 0x80, CHR 0x84], [CHR 0xE2, CHR 0x80, CHR 0x85],
     [CHR 0xE2, CHR 0x80, CHR 0x86], [CHR 0xE2, CHR 0x80, CHR 0x87],
     [CHR 0xE2, CHR 0x80, CHR 0x88], [CHR 0xE2, CHR 0x80, CHR 0x89],
     [CHR 0xE2, CHR 0x80, CHR 0x8A],
     [CHR 0xE2, CHR 0x80, CHR 0xA8], [CHR 0xE2, CHR 0x80, CHR 0xA9],
     [CHR 0xE2, CHR 0x80, CHR 0xAF],
     [CHR 0xE2, CHR 0x81, CHR 0x9F],
     [CHR 0xE3, CHR 0x80, CHR 0x80]]"

text \<open>The width in bytes of the rune of \<open>encs\<close> that \<open>s\<close> starts with, 0 if none.\<close>

definition leadWidth :: "string list \<Rightarrow> string \<Rightarrow> nat" where
  "leadWidth encs s =
     (case find (\<lambda>e. prefix e s) encs of None \<Rightarrow> 0 | Some e \<Rightarrow> length e)"

lemma leadWidth_le: "leadWidth encs s \<le> length s"
  by (auto simp: leadWidth_def find_Some_iff prefix_length_le split: option.splits)

function stripLead :: "string list \<Rightarrow> string \<Rightarrow> string" where
  "stripLead encs s =
     (if leadWidth encs s = 0 then s else stripLead encs (drop (leadWidth encs s) s))"
  by pat_completeness auto
termination
proof (relation "measure (\<lambda>(encs, s). length s)")
  show "wf (measure (\<lambda>(encs, s). length s))" by simp
next
  fix encs :: "string list" and s :: string
  assume "leadWidth encs s \<noteq> 0"
  moreover have "leadWidth encs s \<le> length s" by (rule leadWidth_le)
  ultimately show "((encs, drop (leadWidth encs s) s), (encs, s)) \<in> measure (\<lambda>(encs, s). length s)"
    by simp
qed

declare stripLead.simps [simp del]

definition TrimLeftSpace :: "string \<Rightarrow> string" where
  "TrimLeftSpace s = stripLead spaceEncodings s"

definition TrimRightSpace :: "string \<Rightarrow> string" where
  "TrimRightSpace s = rev (stripLead (map rev spaceEncodings) (rev s))"

definition TrimSpace :: "string \<Rightarrow> string" where
  "TrimSpace s = TrimRightSpace (TrimLeftSpace s)"

text \<open>Whether a string ends in a white space rune.\<close>

definition endsInSpace :: "string \<Rightarrow> bool" where
  "endsInSpace s = (leadWidth (map rev spaceEncodings) (rev s) \<noteq> 0)"

section \<open>Query requests (internal/domain/query.go, strategy.go)\<close>

datatype error =
    ErrEmptyQuery | ErrQueryTooLong
  | ErrInvalidStrategyType | ErrInvalidMaxQueries | ErrInvalidMaxResults
  | ErrInvalidAnalysisIter | ErrInvalidTimeoutSeconds
  | ErrOther string
  | Panic string

record Strategy =
  Type :: string
  MaxQueries :: int
  MaxResults :: int
  MaxAnalysisIterations :: int
  UseCritic :: bool
  TimeoutSeconds :: int

definition StrategyQuick :: string where "StrategyQuick = ''quick''"
definition StrategyStandard :: string where "StrategyStandard = ''standard''"
definition StrategyDeep :: string where "StrategyDeep = ''deep''"

definition StrategyType_IsValid :: "string \<Rightarrow> bool" where
  "StrategyType_IsValid t = (t = StrategyQuick \<or> t = StrategyStandard \<or> t = StrategyDeep)"

definition Strategy_Validate :: "Strategy \<Rightarrow> error option" where
  "Strategy_Validate s =
     (if \<not> StrategyType_IsValid (Type s) then Some ErrInvalidStrategyType
      else if MaxQueries s < 1 \<or> MaxQueries s > 10 then Some ErrInvalidMaxQueries
      else if MaxResults s < 1 \<or> MaxResults s > 100 then Some ErrInvalidMaxResults
      else if MaxAnalysisIterations s < 1 then Some ErrInvalidAnalysisIter
      else if TimeoutSeconds s < 1 then Some ErrInvalidTimeoutSeconds
      else None)"

definition StandardStrategy :: Strategy where
  "StandardStrategy = \<lparr>Type = StrategyStandard, MaxQueries = 3, MaxResults = 15,
     MaxAnalysisIterations = 1, UseCritic = True, TimeoutSeconds = 60\<rparr>"

definition MaxQueryLength :: nat where "MaxQueryLength = 1000"

record QueryRequest =
  UserID :: int
  Text :: string
  OnlyReliable :: bool
  Strategy :: Strategy

definition Validate :: "QueryRequest \<Rightarrow> error option" where
  "Validate q =
     (if TrimSpace (Text q) = [] then Some ErrEmptyQuery
      else if length (Text q) > MaxQueryLength then Some ErrQueryTooLong
      else Strategy_Validate (Strategy q))"

definition SanitizeText :: "string \<Rightarrow> string" where
  "SanitizeText x =
     (let t = TrimSpace x in if length t > MaxQueryLength then take MaxQueryLength t else t)"

definition Sanitize :: "QueryRequest \<Rightarrow> QueryRequest" where
  "Sanitize q = q\<lparr>Text := SanitizeText (Text q)\<rparr>"

text \<open>The first two steps of \<^verbatim>\<open>queryService.Process\<close>: validate, then sanitize.\<close>

definition ProcessIntake :: "QueryRequest \<Rightarrow> error + QueryRequest" where
  "ProcessIntake req = (case Validate req of Some e \<Rightarrow> Inl e | None \<Rightarrow> Inr (Sanitize req))"

subsection \<open>Facts about trimming\<close>

lemma stripLead_fix: "leadWidth encs s = 0 \<Longrightarrow> stripLead encs s = s"
  by (simp add: stripLead.simps)

lemma leadWidth_stripLead: "leadWidth encs (stripLead encs s) = 0"
proof (induction encs s rule: stripLead.induct)
  case (1 encs s)
  then show ?case by (cases "leadWidth encs s = 0") (simp_all add: stripLead.simps)
qed

lemma suffix_stripLead: "suffix (stripLead encs s) s"
proof (induction encs s rule: stripLead.induct)
  case (1 encs s)
  show ?case
  proof (cases "leadWidth encs s = 0")
    case True
    then show ?thesis by (simp add: stripLead.simps)
  next
    case False
    with 1 have "suffix (stripLead encs (drop (leadWidth encs s) s)) (drop (leadWidth encs s) s)"
      by simp
    moreover have "suffix (drop (leadWidth encs s) s) s" by (rule suffix_drop)
    ultimately have "suffix (stripLead encs (drop (leadWidth encs s) s)) s"
      by (rule suffix_order.trans)
    with False show ?thesis by (simp add: stripLead.simps)
  qed
qed

lemma leadWidth_prefix_mono:
  assumes "[] \<notin> set encs" and "leadWidth encs t \<noteq> 0" and "prefix t u"
  shows "leadWidth encs u \<noteq> 0"
proof -
  from assms(2) obtain e where e: "find (\<lambda>e. prefix e t) encs = Some e"
    by (auto simp: leadWidth_def split: option.splits)
  then have "e \<in> set encs" and "prefix e t"
    by (auto simp: find_Some_iff)
  with assms(3) have "\<exists>x. x \<in> set encs \<and> prefix x u"
    by (meson prefix_order.trans)
  then obtain e' where e': "find (\<lambda>e. prefix e u) encs = Some e'"
    by (cases "find (\<lambda>e. prefix e u) encs") (auto simp: find_None_iff)
  then have "e' \<in> set encs" by (auto simp: find_Some_iff)
  with assms(1) have "e' \<noteq> []" by auto
  with e' show ?thesis by (simp add: leadWidth_def)
qed

lemma Nil_notin_spaceEncodings: "[] \<notin> set spaceEncodings"
  by (simp add: spaceEncodings_def)

lemma prefix_TrimRightSpace: "prefix (TrimRightSpace s) s"
proof -
  have "suffix (stripLead (map rev spaceEncodings) (rev s)) (rev s)" by (rule suffix_stripLead)
  then show ?thesis by (simp add: TrimRightSpace_def suffix_to_prefix)
qed

lemma suffix_TrimLeftSpace: "suffix (TrimLeftSpace s) s"
  by (simp add: TrimLeftSpace_def suffix_stripLead)

lemma length_TrimSpace_le: "length (TrimSpace s) \<le> length s"
proof -
  have "length (TrimSpace s) \<le> length (TrimLeftSpace s)"
    unfolding TrimSpace_def by (rule prefix_length_le [OF prefix_TrimRightSpace])
  also have "\<dots> \<le> length s" by (rule suffix_length_le [OF suffix_TrimLeftSpace])
  finally show ?thesis .
qed

lemma TrimRightSpace_fix: "\<not> endsInSpace s \<Longrightarrow> TrimRightSpace s = s"
  by (simp add: TrimRightSpace_def endsInSpace_def stripLead_fix)

lemma TrimRightSpace_fix_iff: "TrimRightSpace s = s \<longleftrightarrow> \<not> endsInSpace s"
proof
  assume h: "TrimRightSpace s = s"
  have "leadWidth (map rev spaceEncodings) (rev (TrimRightSpace s)) = 0"
    by (simp add: TrimRightSpace_def leadWidth_stripLead)
  with h show "\<not> endsInSpace s" by (simp add: endsInSpace_def)
qed (rule TrimRightSpace_fix)

lemma TrimLeftSpace_fix: "leadWidth spaceEncodings s = 0 \<Longrightarrow> TrimLeftSpace s = s"
  by (simp add: TrimLeftSpace_def stripLead_fix)

text \<open>No prefix of a trimmed string starts with white space.\<close>

lemma leadWidth_prefix_TrimSpace:
  assumes "prefix y (TrimSpace x)"
  shows "leadWidth spaceEncodings y = 0"
proof (rule ccontr)
  assume "leadWidth spaceEncodings y \<noteq> 0"
  moreover have "prefix y (TrimLeftSpace x)"
    using assms prefix_TrimRightSpace [of "TrimLeftSpace x"]
    unfolding TrimSpace_def by (rule prefix_order.trans)
  ultimately have "leadWidth spaceEncodings (TrimLeftSpace x) \<noteq> 0"
    using Nil_notin_spaceEncodings leadWidth_prefix_mono by blast
  then show False by (simp add: TrimLeftSpace_def leadWidth_stripLead)
qed

lemma not_endsInSpace_TrimSpace: "\<not> endsInSpace (TrimSpace x)"
  by (simp add: endsInSpace_def TrimSpace_def TrimRightSpace_def leadWidth_stripLead)

lemma TrimSpace_prefix_of_trimmed:
  assumes "prefix y (TrimSpace x)"
  shows "TrimSpace y = TrimRightSpace y"
  using leadWidth_prefix_TrimSpace [OF assms] by (simp add: TrimSpace_def TrimLeftSpace_fix)

lemma TrimSpace_idem: "TrimSpace (TrimSpace x) = TrimSpace x"
  using TrimSpace_prefix_of_trimmed [of "TrimSpace x" x] not_endsInSpace_TrimSpace [of x]
  by (simp add: TrimRightSpace_fix)

lemma TrimSpace_fix: "leadWidth spaceEncodings s = 0 \<Longrightarrow> \<not> endsInSpace s \<Longrightarrow> TrimSpace s = s"
  by (simp add: TrimSpace_def TrimLeftSpace_fix TrimRightSpace_fix)

lemma TrimRightSpace_Nil: "TrimRightSpace [] = []"
  by (simp add: TrimRightSpace_def stripLead.simps leadWidth_def spaceEncodings_def)

subsection \<open>Facts about Sanitize\<close>

lemma SanitizeText_take: "SanitizeText x = take MaxQueryLength (TrimSpace x)"
  by (simp add: SanitizeText_def Let_def)

lemma length_SanitizeText: "length (SanitizeText x) \<le> MaxQueryLength"
  by (simp add: SanitizeText_take)

text \<open>A second pass only trims on the right: the first result starts with no white
  space and is short enough.\<close>

lemma SanitizeText_twice: "SanitizeText (SanitizeText x) = TrimRightSpace (SanitizeText x)"
proof -
  have p: "prefix (SanitizeText x) (TrimSpace x)"
    by (simp add: SanitizeText_take take_is_prefix)
  have t: "TrimSpace (SanitizeText x) = TrimRightSpace (SanitizeText x)"
    by (rule TrimSpace_prefix_of_trimmed [OF p])
  have "length (TrimRightSpace (SanitizeText x)) \<le> length (SanitizeText x)"
    by (rule prefix_length_le [OF prefix_TrimRightSpace])
  with length_SanitizeText [of x] have "length (TrimRightSpace (SanitizeText x)) \<le> MaxQueryLength"
    by simp
  with t show ?thesis by (simp add: SanitizeText_take [of "SanitizeText x"])
qed

lemma SanitizeText_idem_iff:
  "SanitizeText (SanitizeText x) = SanitizeText x \<longleftrightarrow> \<not> endsInSpace (SanitizeText x)"
  by (simp add: SanitizeText_twice TrimRightSpace_fix_iff)

lemma SanitizeText_idem_short:
  assumes "length (TrimSpace x) \<le> MaxQueryLength"
  shows "SanitizeText (SanitizeText x) = SanitizeText x"
proof -
  from assms have "SanitizeText x = TrimSpace x" by (simp add: SanitizeText_take)
  then have "\<not> endsInSpace (SanitizeText x)" by (simp add: not_endsInSpace_TrimSpace)
  then show ?thesis using SanitizeText_idem_iff [of x] by blast
qed

subsection \<open>Evaluating the trimming on concrete texts\<close>

lemma leadWidth_letter_a: "leadWidth spaceEncodings (CHR ''a'' # t) = 0"
  by (simp add: leadWidth_def spaceEncodings_def)

lemma leadWidth_blank: "leadWidth spaceEncodings (CHR '' '' # t) = 1"
  by (simp add: leadWidth_def spaceEncodings_def)

lemma not_endsInSpace_letter_a: "\<not> endsInSpace (s @ ''a'')"
  by (simp add: endsInSpace_def leadWidth_def spaceEncodings_def)

lemma endsInSpace_blank: "endsInSpace (s @ '' '')"
  by (simp add: endsInSpace_def leadWidth_def spaceEncodings_def)

lemma stripLead_blanks: "stripLead spaceEncodings (replicate n (CHR '' '')) = []"
proof (induction n)
  case 0
  show ?case by (simp add: stripLead.simps leadWidth_def spaceEncodings_def)
next
  case (Suc n)
  have "stripLead spaceEncodings (replicate (Suc n) (CHR '' '')) =
        stripLead spaceEncodings (replicate n (CHR '' ''))"
    by (subst stripLead.simps) (simp add: leadWidth_blank)
  with Suc show ?case by simp
qed

lemma TrimSpace_blanks: "TrimSpace (replicate n (CHR '' '')) = []"
  by (simp add: TrimSpace_def TrimLeftSpace_def stripLead_blanks TrimRightSpace_Nil)

lemma TrimLeftSpace_blank_a: "TrimLeftSpace (CHR '' '' # CHR ''a'' # t) = CHR ''a'' # t"
proof -
  have "stripLead spaceEncodings (CHR '' '' # CHR ''a'' # t) = stripLead spaceEncodings (CHR ''a'' # t)"
    by (subst stripLead.simps) (simp add: leadWidth_blank)
  then show ?thesis by (simp add: TrimLeftSpace_def stripLead_fix leadWidth_letter_a)
qed

subsection \<open>Sanitize twice\<close>

lemma SanitizeText_cut_example:
  "SanitizeText (replicate 999 (CHR ''a'') @ '' b'') = replicate 999 (CHR ''a'') @ '' ''"
proof -
  let ?x = "replicate 999 (CHR ''a'') @ '' b''"
  have "(999::nat) = Suc 998" by simp
  then have "replicate 999 (CHR ''a'') = CHR ''a'' # replicate 998 (CHR ''a'')"
    by (simp only: replicate.simps)
  then have hd: "?x = CHR ''a'' # (replicate 998 (CHR ''a'') @ '' b'')" by simp
  have "leadWidth spaceEncodings ?x = 0" by (subst hd) (rule leadWidth_letter_a)
  moreover have "\<not> endsInSpace ?x"
    by (simp add: endsInSpace_def leadWidth_def spaceEncodings_def)
  ultimately have "TrimSpace ?x = ?x" by (rule TrimSpace_fix)
  then show ?thesis by (simp add: SanitizeText_take MaxQueryLength_def)
qed

text \<open>
  Claim C8, as stated: \<^verbatim>\<open>Sanitize(Sanitize(x)) == Sanitize(x)\<close> for every text.
  It fails for a text of 999 letters, a blank and one more letter (1001 bytes): the
  first pass cuts after the blank, and the second pass trims that blank.
\<close>

theorem C8_sanitize_twice_differs:
  "SanitizeText (SanitizeText (replicate 999 (CHR ''a'') @ '' b'')) \<noteq>
   SanitizeText (replicate 999 (CHR ''a'') @ '' b'')"
proof -
  have "endsInSpace (SanitizeText (replicate 999 (CHR ''a'') @ '' b''))"
    by (simp only: SanitizeText_cut_example endsInSpace_blank)
  then show ?thesis using SanitizeText_idem_iff by blast
qed

text \<open>
  Claim C8, amended: Sanitize trims surrounding white space and keeps the first 1000
  bytes of the trimmed text. A second application only removes white space at the end
  of the first result, so Sanitize applied twice equals Sanitize applied once exactly
  when the first result does not end in white space; this is the case whenever the
  trimmed text has at most 1000 bytes.
\<close>

theorem C8_sanitize_idempotent_unless_cut_at_space:
  "Text (Sanitize q) = take MaxQueryLength (TrimSpace (Text q)) \<and>
   Sanitize (Sanitize q) = q\<lparr>Text := TrimRightSpace (Text (Sanitize q))\<rparr> \<and>
   (Sanitize (Sanitize q) = Sanitize q \<longleftrightarrow> \<not> endsInSpace (Text (Sanitize q))) \<and>
   (length (TrimSpace (Text q)) \<le> MaxQueryLength \<longrightarrow> Sanitize (Sanitize q) = Sanitize q)"
proof -
  have a: "Text (Sanitize q) = take MaxQueryLength (TrimSpace (Text q))"
    by (simp add: Sanitize_def SanitizeText_take)
  have b: "Sanitize (Sanitize q) = q\<lparr>Text := TrimRightSpace (Text (Sanitize q))\<rparr>"
    by (simp add: Sanitize_def SanitizeText_twice)
  have eq: "Sanitize (Sanitize q) = Sanitize q \<longleftrightarrow>
            SanitizeText (SanitizeText (Text q)) = SanitizeText (Text q)"
  proof
    assume "Sanitize (Sanitize q) = Sanitize q"
    then have "Text (Sanitize (Sanitize q)) = Text (Sanitize q)" by simp
    then show "SanitizeText (SanitizeText (Text q)) = SanitizeText (Text q)"
      by (simp add: Sanitize_def)
  next
    assume "SanitizeText (SanitizeText (Text q)) = SanitizeText (Text q)"
    then show "Sanitize (Sanitize q) = Sanitize q" by (simp add: Sanitize_def)
  qed
  have c: "Sanitize (Sanitize q) = Sanitize q \<longleftrightarrow> \<not> endsInSpace (Text (Sanitize q))"
    using eq SanitizeText_idem_iff [of "Text q"] by (simp add: Sanitize_def)
  have d: "length (TrimSpace (Text q)) \<le> MaxQueryLength \<longrightarrow> Sanitize (Sanitize q) = Sanitize q"
    using eq SanitizeText_idem_short [of "Text q"] by simp
  from a b c d show ?thesis by blast
qed

theorem C8_sanitize_idempotent_witness:
  "length (TrimSpace (Text \<lparr>UserID = 1, Text = ''  what is go?  '', OnlyReliable = False,
       Strategy = StandardStrategy\<rparr>)) \<le> MaxQueryLength \<and>
   Sanitize (Sanitize \<lparr>UserID = 1, Text = ''  what is go?  '', OnlyReliable = False,
       Strategy = StandardStrategy\<rparr>) =
   Sanitize \<lparr>UserID = 1, Text = ''  what is go?  '', OnlyReliable = False,
       Strategy = StandardStrategy\<rparr> \<and>
   Text (Sanitize \<lparr>UserID = 1, Text = ''  what is go?  '', OnlyReliable = False,
       Strategy = StandardStrategy\<rparr>) = ''what is go?''"
proof -
  let ?q = "\<lparr>UserID = 1, Text = ''  what is go?  '', OnlyReliable = False,
       Strategy = StandardStrategy\<rparr>"
  have t: "TrimSpace ''  what is go?  '' = ''what is go?''"
    by (simp add: TrimSpace_def TrimLeftSpace_def TrimRightSpace_def stripLead.simps
        leadWidth_def spaceEncodings_def)
  have l: "length (TrimSpace (Text ?q)) \<le> MaxQueryLength"
    by (simp add: t MaxQueryLength_def)
  with C8_sanitize_idempotent_unless_cut_at_space [of ?q]
  have "Sanitize (Sanitize ?q) = Sanitize ?q" by blast
  moreover have "Text (Sanitize ?q) = ''what is go?''"
    by (simp add: Sanitize_def SanitizeText_take t MaxQueryLength_def)
  ultimately show ?thesis using l by blast
qed

subsection \<open>Validation before sanitizing\<close>

lemma ProcessIntake_too_long:
  assumes "length (Text req) > MaxQueryLength"
  shows "ProcessIntake req =
         Inl (if TrimSpace (Text req) = [] then ErrEmptyQuery else ErrQueryTooLong)"
  using assms by (simp add: ProcessIntake_def Validate_def)

lemma ProcessIntake_accepts:
  assumes "ProcessIntake req = Inr req'"
  shows "length (Text req) \<le> MaxQueryLength \<and> TrimSpace (Text req) \<noteq> [] \<and>
         req' = req\<lparr>Text := TrimSpace (Text req)\<rparr>"
proof -
  from assms have v: "Validate req = None" and r: "req' = Sanitize req"
    by (auto simp: ProcessIntake_def split: option.splits)
  from v have ne: "TrimSpace (Text req) \<noteq> []" and le: "length (Text req) \<le> MaxQueryLength"
    by (auto simp: Validate_def split: if_splits)
  from le length_TrimSpace_le [of "Text req"] have "length (TrimSpace (Text req)) \<le> MaxQueryLength"
    by simp
  then have "SanitizeText (Text req) = TrimSpace (Text req)" by (simp add: SanitizeText_take)
  with r ne le show ?thesis by (simp add: Sanitize_def)
qed

text \<open>
  Claim C10, as stated: every request whose raw text exceeds 1000 bytes is rejected
  with ErrQueryTooLong. A text of 1001 blanks is rejected with ErrEmptyQuery instead:
  the emptiness check of the trimmed text comes first in Validate.
\<close>

theorem C10_long_blank_text_is_empty_query:
  "length (Text \<lparr>UserID = 1, Text = replicate 1001 (CHR '' ''), OnlyReliable = False,
       Strategy = StandardStrategy\<rparr>) > MaxQueryLength \<and>
   ProcessIntake \<lparr>UserID = 1, Text = replicate 1001 (CHR '' ''), OnlyReliable = False,
       Strategy = StandardStrategy\<rparr> = Inl ErrEmptyQuery \<and>
   ErrEmptyQuery \<noteq> ErrQueryTooLong"
  by (simp add: ProcessIntake_def Validate_def TrimSpace_blanks MaxQueryLength_def)

text \<open>
  Claim C10, amended: the orchestrator validates before sanitizing, so every request
  whose raw text exceeds 1000 bytes is rejected, with ErrEmptyQuery when the text is
  white space only and with ErrQueryTooLong otherwise, even when trimming would bring
  it to at most 1000 bytes. For every request that passes validation the raw text has
  at most 1000 bytes, Sanitize only trims, and the truncation branch never fires.
\<close>

theorem C10_validate_before_sanitize:
  "(length (Text req) > MaxQueryLength \<longrightarrow>
      ProcessIntake req =
        Inl (if TrimSpace (Text req) = [] then ErrEmptyQuery else ErrQueryTooLong)) \<and>
   (ProcessIntake req = Inr req' \<longrightarrow>
      \<not> length (TrimSpace (Text req)) > MaxQueryLength \<and>
      Text req' = TrimSpace (Text req) \<and> req' = req\<lparr>Text := TrimSpace (Text req)\<rparr>)"
proof (intro conjI impI)
  assume "length (Text req) > MaxQueryLength"
  then show "ProcessIntake req =
      Inl (if TrimSpace (Text req) = [] then ErrEmptyQuery else ErrQueryTooLong)"
    by (rule ProcessIntake_too_long)
next
  assume a: "ProcessIntake req = Inr req'"
  note f = ProcessIntake_accepts [OF a]
  from f length_TrimSpace_le [of "Text req"]
  show "\<not> length (TrimSpace (Text req)) > MaxQueryLength" by simp
  from f show "Text req' = TrimSpace (Text req)" by simp
  from f show "req' = req\<lparr>Text := TrimSpace (Text req)\<rparr>" by simp
qed

lemma TrimSpace_example: "TrimSpace ''  what is go?  '' = ''what is go?''"
  by (simp add: TrimSpace_def TrimLeftSpace_def TrimRightSpace_def stripLead.simps
      leadWidth_def spaceEncodings_def)

lemma TrimSpace_blank_letters:
  "TrimSpace (CHR '' '' # CHR ''a'' # replicate 998 (CHR ''a'') @ ''a'') =
   CHR ''a'' # replicate 998 (CHR ''a'') @ ''a''"
proof -
  have "\<not> endsInSpace ((CHR ''a'' # replicate 998 (CHR ''a'')) @ ''a'')"
    by (rule not_endsInSpace_letter_a)
  then have "TrimRightSpace (CHR ''a'' # replicate 998 (CHR ''a'') @ ''a'') =
             CHR ''a'' # replicate 998 (CHR ''a'') @ ''a''"
    by (simp add: TrimRightSpace_fix)
  then show ?thesis by (simp add: TrimSpace_def TrimLeftSpace_blank_a)
qed

theorem C10_validate_before_sanitize_witness:
  "length (Text \<lparr>UserID = 1, Text = CHR '' '' # CHR ''a'' # replicate 998 (CHR ''a'') @ ''a'',
       OnlyReliable = False, Strategy = StandardStrategy\<rparr>) > MaxQueryLength \<and>
   length (TrimSpace (CHR '' '' # CHR ''a'' # replicate 998 (CHR ''a'') @ ''a'')) \<le> MaxQueryLength \<and>
   ProcessIntake \<lparr>UserID = 1, Text = CHR '' '' # CHR ''a'' # replicate 998 (CHR ''a'') @ ''a'',
       OnlyReliable = False, Strategy = StandardStrategy\<rparr> = Inl ErrQueryTooLong \<and>
   ProcessIntake \<lparr>UserID = 1, Text = ''  what is go?  '', OnlyReliable = False,
       Strategy = StandardStrategy\<rparr> =
     Inr \<lparr>UserID = 1, Text = ''what is go?'', OnlyReliable = False,
       Strategy = StandardStrategy\<rparr> \<and>
   \<not> length (TrimSpace ''  what is go?  '') > MaxQueryLength"
proof -
  let ?r1 = "\<lparr>UserID = 1, Text = CHR '' '' # CHR ''a'' # replicate 998 (CHR ''a'') @ ''a'',
       OnlyReliable = False, Strategy = StandardStrategy\<rparr>"
  let ?r2 = "\<lparr>UserID = 1, Text = ''  what is go?  '', OnlyReliable = False,
       Strategy = StandardStrategy\<rparr>"
  let ?r2' = "\<lparr>UserID = 1, Text = ''what is go?'', OnlyReliable = False,
       Strategy = StandardStrategy\<rparr>"
  have l1: "length (Text ?r1) > MaxQueryLength" by (simp add: MaxQueryLength_def)
  have s1: "length (TrimSpace (CHR '' '' # CHR ''a'' # replicate 998 (CHR ''a'') @ ''a''))
            \<le> MaxQueryLength"
    by (simp add: TrimSpace_blank_letters MaxQueryLength_def)
  from l1 C10_validate_before_sanitize [of ?r1]
  have "ProcessIntake ?r1 =
        Inl (if TrimSpace (Text ?r1) = [] then ErrEmptyQuery else ErrQueryTooLong)"
    by blast
  then have p1: "ProcessIntake ?r1 = Inl ErrQueryTooLong"
    by (simp add: TrimSpace_blank_letters)
  have p2: "ProcessIntake ?r2 = Inr ?r2'"
    by (simp add: ProcessIntake_def Validate_def Sanitize_def SanitizeText_take
        TrimSpace_example MaxQueryLength_def Strategy_Validate_def StandardStrategy_def
        StrategyType_IsValid_def StrategyStandard_def)
  from p2 C10_validate_before_sanitize [of ?r2 ?r2']
  have "\<not> length (TrimSpace (Text ?r2)) > MaxQueryLength" by blast
  then have n2: "\<not> length (TrimSpace ''  what is go?  '') > MaxQueryLength" by simp
  from l1 s1 p1 p2 n2 show ?thesis by blast
qed

section \<open>Search fan-out (internal/service/query.go, searchWithCache)\<close>

text \<open>
  A score is a \<^verbatim>\<open>float64\<close> decoded from the provider's JSON, hence a finite number;
  finite floats compare as the real numbers they denote, so a score is a \<^typ>\<open>real\<close>.
\<close>

record SearchResult =
  Title :: string
  URL :: string
  Content :: string
  Score :: real
  PublishedDate :: string

text \<open>
  \<^verbatim>\<open>sort.Slice\<close> belongs to Go's standard library. Its documentation promises a
  rearrangement of the slice that is sorted by the comparison \<open>lt\<close> and states that the sort is not
  guaranteed to be stable. The model takes the sort as a parameter \<open>srt\<close>;
  \<open>sortSliceSpec\<close> is that contract.
\<close>

definition sortSliceSpec :: "(('a \<Rightarrow> 'a \<Rightarrow> bool) \<Rightarrow> 'a list \<Rightarrow> 'a list) \<Rightarrow> ('a \<Rightarrow> 'a \<Rightarrow> bool) \<Rightarrow> bool" where
  "sortSliceSpec srt lt =
     (\<forall>xs. mset (srt lt xs) = mset xs \<and> sorted_wrt (\<lambda>a b. \<not> lt b a) (srt lt xs))"

text \<open>The comparison of \<^verbatim>\<open>searchWithCache\<close>: \<^verbatim>\<open>allResults[i].Score > allResults[j].Score\<close>.\<close>

definition byScoreDesc :: "SearchResult \<Rightarrow> SearchResult \<Rightarrow> bool" where
  "byScoreDesc a b = (Score a > Score b)"

text \<open>
  Every goroutine either sends its result list on the channel or, on an error, logs and
  sends nothing. \<open>outcomes\<close> lists what the sub-calls returned, in the order in which the
  channel delivers them.
\<close>

definition receivedBatches :: "(error + SearchResult list) list \<Rightarrow> SearchResult list list" where
  "receivedBatches outcomes =
     List.map_filter (\<lambda>out. case out of Inl e \<Rightarrow> None | Inr rs \<Rightarrow> Some rs) outcomes"

text \<open>The body of the inner loop: \<open>seen\<close> is the key set of the map of seen URLs.\<close>

fun mergeStep :: "string set \<times> SearchResult list \<Rightarrow> SearchResult \<Rightarrow> string set \<times> SearchResult list" where
  "mergeStep (seen, allResults) r =
     (if URL r \<in> seen then (seen, allResults) else (insert (URL r) seen, allResults @ [r]))"

definition mergeResults :: "SearchResult list list \<Rightarrow> SearchResult list" where
  "mergeResults batches = snd (foldl (foldl mergeStep) ({}, []) batches)"

text \<open>A slice expression \<^verbatim>\<open>xs[:n]\<close> with negative \<open>n\<close> panics.\<close>

definition truncateTo :: "int \<Rightarrow> 'a list \<Rightarrow> error + 'a list" where
  "truncateTo maxResults xs =
     (if int (length xs) > maxResults
      then (if maxResults < 0 then Inl (Panic ''slice bounds out of range'')
            else Inr (take (nat maxResults) xs))
      else Inr xs)"

definition searchWithCache ::
  "((SearchResult \<Rightarrow> SearchResult \<Rightarrow> bool) \<Rightarrow> SearchResult list \<Rightarrow> SearchResult list) \<Rightarrow>
   (error + SearchResult list) list \<Rightarrow> int \<Rightarrow> error + SearchResult list" where
  "searchWithCache srt outcomes maxResults =
     truncateTo maxResults (srt byScoreDesc (mergeResults (receivedBatches outcomes)))"

text \<open>
  Insertion sort, which \<^verbatim>\<open>sort.Slice\<close> runs on slices of at most 12 elements: each
  element moves left past the elements it is less than.
\<close>

fun insertLess :: "('a \<Rightarrow> 'a \<Rightarrow> bool) \<Rightarrow> 'a \<Rightarrow> 'a list \<Rightarrow> 'a list" where
  "insertLess lt x [] = [x]"
| "insertLess lt x (y # ys) = (if lt x y then x # y # ys else y # insertLess lt x ys)"

definition insertionSort :: "('a \<Rightarrow> 'a \<Rightarrow> bool) \<Rightarrow> 'a list \<Rightarrow> 'a list" where
  "insertionSort lt xs = foldl (\<lambda>acc x. insertLess lt x acc) [] xs"

text \<open>A sort that meets the contract of \<^verbatim>\<open>sort.Slice\<close> and is not stable.\<close>

definition tieReversingSort :: "('a \<Rightarrow> 'a \<Rightarrow> bool) \<Rightarrow> 'a list \<Rightarrow> 'a list" where
  "tieReversingSort lt xs = insertionSort lt (rev xs)"

text \<open>The results kept by the merge, as a function of the URLs already seen.\<close>

fun dedupFirst :: "string set \<Rightarrow> SearchResult list \<Rightarrow> SearchResult list" where
  "dedupFirst seen [] = []"
| "dedupFirst seen (r # rs) =
     (if URL r \<in> seen then dedupFirst seen rs else r # dedupFirst (insert (URL r) seen) rs)"

subsection \<open>The merge keeps the first result of every URL\<close>

lemma foldl_mergeStep:
  "foldl mergeStep (seen, acc) rs = (seen \<union> URL ` set rs, acc @ dedupFirst seen rs)"
proof (induction rs arbitrary: seen acc)
  case Nil
  show ?case by simp
next
  case (Cons r rs)
  show ?case by (cases "URL r \<in> seen") (auto simp: Cons.IH)
qed

lemma foldl_foldl_concat: "foldl (foldl f) s xss = foldl f s (concat xss)"
  by (induction xss arbitrary: s) simp_all

lemma mergeResults_dedupFirst: "mergeResults batches = dedupFirst {} (concat batches)"
  by (simp add: mergeResults_def foldl_foldl_concat foldl_mergeStep)

lemma URL_dedupFirst_notin: "r \<in> set (dedupFirst seen rs) \<Longrightarrow> URL r \<notin> seen"
  by (induction rs arbitrary: seen) (auto split: if_splits)

lemma distinct_dedupFirst: "distinct (map URL (dedupFirst seen rs))"
proof (induction rs arbitrary: seen)
  case Nil
  show ?case by simp
next
  case (Cons r rs)
  have "URL r \<notin> URL ` set (dedupFirst (insert (URL r) seen) rs)"
  proof
    assume "URL r \<in> URL ` set (dedupFirst (insert (URL r) seen) rs)"
    then obtain x where x: "x \<in> set (dedupFirst (insert (URL r) seen) rs)" "URL x = URL r"
      by auto
    from URL_dedupFirst_notin [OF x(1)] x(2) show False by simp
  qed
  with Cons show ?case by simp
qed

lemma subseq_dedupFirst: "subseq (dedupFirst seen rs) rs"
  by (induction rs arbitrary: seen) auto

lemma find_dedupFirst:
  "find (\<lambda>x. URL x = u) (dedupFirst seen rs) =
     (if u \<in> seen then None else find (\<lambda>x. URL x = u) rs)"
proof (induction rs arbitrary: seen)
  case Nil
  show ?case by simp
next
  case (Cons r rs)
  show ?case by (cases "URL r \<in> seen") (auto simp: Cons.IH)
qed

subsection \<open>Insertion sort meets the contract\<close>

lemma mset_insertLess: "mset (insertLess lt x ys) = add_mset x (mset ys)"
  by (induction ys) simp_all

lemma mset_insertionSort: "mset (insertionSort lt xs) = mset xs"
proof (induction xs rule: rev_induct)
  case Nil
  show ?case by (simp add: insertionSort_def)
next
  case (snoc x xs)
  then show ?case by (simp add: insertionSort_def mset_insertLess)
qed

lemma set_insertLess: "set (insertLess lt x ys) = insert x (set ys)"
  by (induction ys) auto

lemma sorted_insertLess_score:
  assumes "sorted_wrt (\<lambda>a b. \<not> byScoreDesc b a) ys"
  shows "sorted_wrt (\<lambda>a b. \<not> byScoreDesc b a) (insertLess byScoreDesc x ys)"
  using assms
proof (induction ys)
  case Nil
  show ?case by simp
next
  case (Cons y ys)
  show ?case
  proof (cases "byScoreDesc x y")
    case True
    with Cons.prems show ?thesis by (auto simp: byScoreDesc_def)
  next
    case False
    with Cons show ?thesis by (auto simp: set_insertLess byScoreDesc_def)
  qed
qed

lemma sorted_insertionSort_score:
  "sorted_wrt (\<lambda>a b. \<not> byScoreDesc b a) (insertionSort byScoreDesc xs)"
proof (induction xs rule: rev_induct)
  case Nil
  show ?case by (simp add: insertionSort_def)
next
  case (snoc x xs)
  then show ?case using sorted_insertLess_score by (simp add: insertionSort_def)
qed

lemma insertionSort_meets_spec: "sortSliceSpec insertionSort byScoreDesc"
  by (simp add: sortSliceSpec_def mset_insertionSort sorted_insertionSort_score)

lemma tieReversingSort_meets_spec: "sortSliceSpec tieReversingSort byScoreDesc"
  by (simp add: sortSliceSpec_def tieReversingSort_def mset_insertionSort
      sorted_insertionSort_score)

subsection \<open>What the fan-out returns\<close>

lemma sorted_by_score_unique:
  assumes m: "mset xs = mset ys"
    and sx: "sorted_wrt (\<lambda>a b. Score b \<le> Score a) xs"
    and sy: "sorted_wrt (\<lambda>a b. Score b \<le> Score a) ys"
    and d: "distinct (map Score xs)"
  shows "xs = ys"
proof -
  from m have mm: "mset (map Score xs) = mset (map Score ys)" by simp
  with d have dy: "distinct (map Score ys)" using mset_eq_imp_distinct_iff by blast
  from m have st: "set xs = set ys" by (rule mset_eq_setD)
  have "sorted (rev (map Score xs))"
    using sx by (simp add: sorted_wrt_rev sorted_wrt_map rev_map [symmetric])
  moreover have "sorted (rev (map Score ys))"
    using sy by (simp add: sorted_wrt_rev sorted_wrt_map rev_map [symmetric])
  moreover have "set (rev (map Score xs)) = set (rev (map Score ys))" using st by simp
  ultimately have "rev (map Score xs) = rev (map Score ys)"
    using d dy by (intro sorted_distinct_set_unique) simp_all
  then have e: "map Score xs = map Score ys" by simp
  from d have "inj_on Score (set xs)" by (simp add: distinct_map)
  with st have "inj_on Score (set xs \<union> set ys)" by simp
  with e show ?thesis by (rule map_inj_on)
qed

lemma sortSliceSpec_score:
  assumes "sortSliceSpec srt byScoreDesc"
  shows "mset (srt byScoreDesc xs) = mset xs"
    and "sorted_wrt (\<lambda>a b. Score b \<le> Score a) (srt byScoreDesc xs)"
  using assms by (simp_all add: sortSliceSpec_def byScoreDesc_def not_less)

lemma sorted_distinct_URL:
  assumes "sortSliceSpec srt byScoreDesc"
  shows "distinct (map URL (srt byScoreDesc (mergeResults batches)))"
proof -
  have "mset (map URL (srt byScoreDesc (mergeResults batches))) =
        mset (map URL (mergeResults batches))"
    by (simp add: sortSliceSpec_score(1) [OF assms])
  moreover have "distinct (map URL (mergeResults batches))"
    by (simp add: mergeResults_dedupFirst distinct_dedupFirst)
  ultimately show ?thesis using mset_eq_imp_distinct_iff by blast
qed

lemma truncateTo_Inr:
  assumes "truncateTo n xs = Inr ys"
  shows "0 \<le> n \<or> xs = []" and "ys = take (nat n) xs" and "int (length ys) \<le> n"
  using assms by (auto simp: truncateTo_def split: if_splits)

lemma truncateTo_total: "0 \<le> n \<Longrightarrow> truncateTo n xs = Inr (take (nat n) xs)"
  by (auto simp: truncateTo_def)

text \<open>
  Claim C1: for every successful call of the search fan-out, the returned list holds no
  two results with the same URL, its scores are non-increasing from first to last, and
  its length is at most \<open>maxResults\<close>.
\<close>

theorem C1_search_unique_sorted_bounded:
  assumes "sortSliceSpec srt byScoreDesc"
    and "searchWithCache srt outcomes maxResults = Inr rs"
  shows "distinct (map URL rs) \<and> sorted_wrt (\<lambda>a b. Score b \<le> Score a) rs \<and>
         int (length rs) \<le> maxResults"
proof -
  let ?s = "srt byScoreDesc (mergeResults (receivedBatches outcomes))"
  from assms(2) have t: "truncateTo maxResults ?s = Inr rs" by (simp add: searchWithCache_def)
  then have rs: "rs = take (nat maxResults) ?s" and len: "int (length rs) \<le> maxResults"
    by (rule truncateTo_Inr)+
  have "distinct (map URL ?s)" by (rule sorted_distinct_URL [OF assms(1)])
  then have "distinct (take (nat maxResults) (map URL ?s))" by (rule distinct_take)
  then have d: "distinct (map URL rs)" by (simp add: rs take_map)
  have "sorted_wrt (\<lambda>a b. Score b \<le> Score a) ?s" by (rule sortSliceSpec_score(2) [OF assms(1)])
  then have s: "sorted_wrt (\<lambda>a b. Score b \<le> Score a) rs" unfolding rs by (rule sorted_wrt_take)
  from d s len show ?thesis by blast
qed

text \<open>Sample results for evaluating the fan-out.\<close>

definition mkResult :: "string \<Rightarrow> real \<Rightarrow> SearchResult" where
  "mkResult u s = \<lparr>Title = [], URL = u, Content = [], Score = s, PublishedDate = []\<rparr>"

theorem C1_search_unique_sorted_bounded_witness:
  "sortSliceSpec insertionSort byScoreDesc \<and>
   searchWithCache insertionSort
     [Inr [mkResult ''a.com/1'' (1/2), mkResult ''b.com/2'' (9/10)],
      Inl (ErrOther ''search request failed''),
      Inr [mkResult ''a.com/1'' (8/10), mkResult ''c.com/3'' (7/10)]] 2 =
     Inr [mkResult ''b.com/2'' (9/10), mkResult ''c.com/3'' (7/10)] \<and>
   distinct (map URL [mkResult ''b.com/2'' (9/10), mkResult ''c.com/3'' (7/10)]) \<and>
   sorted_wrt (\<lambda>a b. Score b \<le> Score a) [mkResult ''b.com/2'' (9/10), mkResult ''c.com/3'' (7/10)] \<and>
   int (length [mkResult ''b.com/2'' (9/10), mkResult ''c.com/3'' (7/10)]) \<le> 2"
proof -
  have run: "searchWithCache insertionSort
     [Inr [mkResult ''a.com/1'' (1/2), mkResult ''b.com/2'' (9/10)],
      Inl (ErrOther ''search request failed''),
      Inr [mkResult ''a.com/1'' (8/10), mkResult ''c.com/3'' (7/10)]] 2 =
     Inr [mkResult ''b.com/2'' (9/10), mkResult ''c.com/3'' (7/10)]"
    by (simp add: searchWithCache_def receivedBatches_def mergeResults_def
        insertionSort_def byScoreDesc_def truncateTo_def mkResult_def)
  from C1_search_unique_sorted_bounded [OF insertionSort_meets_spec run]
    insertionSort_meets_spec run
  show ?thesis by blast
qed

subsection \<open>Order of results with equal scores\<close>

text \<open>Twelve results with the same score, first seen in the order a to l, and a better one.\<close>

definition tiedSample :: "SearchResult list" where
  "tiedSample =
     map (\<lambda>u. mkResult u (1/2))
       [''a'', ''b'', ''c'', ''d'', ''e'', ''f'', ''g'', ''h'', ''i'', ''j'', ''k'', ''l'']
     @ [mkResult ''m'' (9/10)]"

text \<open>
  Claim C2, as stated: the sort by descending score is stable, so results with equal
  scores come out in their first-seen order. The code sorts with \<^verbatim>\<open>sort.Slice\<close>,
  whose contract does not include stability: a sort that meets the contract returns the
  twelve tied results in the reverse of their first-seen order.
\<close>

theorem C2_equal_scores_out_of_first_seen_order:
  "sortSliceSpec tieReversingSort byScoreDesc \<and>
   mergeResults (receivedBatches [Inr tiedSample]) = tiedSample \<and>
   map URL tiedSample =
     [''a'', ''b'', ''c'', ''d'', ''e'', ''f'', ''g'', ''h'', ''i'', ''j'', ''k'', ''l'', ''m''] \<and>
   map Score (take 12 tiedSample) = replicate 12 (1/2) \<and>
   searchWithCache tieReversingSort [Inr tiedSample] 15 = Inr (rev tiedSample) \<and>
   map URL (rev tiedSample) =
     [''m'', ''l'', ''k'', ''j'', ''i'', ''h'', ''g'', ''f'', ''e'', ''d'', ''c'', ''b'', ''a'']"
proof -
  have m: "mergeResults (receivedBatches [Inr tiedSample]) = tiedSample"
    by (simp add: receivedBatches_def mergeResults_def tiedSample_def mkResult_def)
  have u: "map URL tiedSample =
     [''a'', ''b'', ''c'', ''d'', ''e'', ''f'', ''g'', ''h'', ''i'', ''j'', ''k'', ''l'', ''m'']"
    by (simp add: tiedSample_def mkResult_def)
  have s: "map Score (take 12 tiedSample) = replicate 12 (1/2)"
    by (simp add: tiedSample_def mkResult_def numeral_eq_Suc)
  have "tieReversingSort byScoreDesc tiedSample = rev tiedSample"
    by (simp add: tieReversingSort_def insertionSort_def byScoreDesc_def tiedSample_def
        mkResult_def)
  then have r: "searchWithCache tieReversingSort [Inr tiedSample] 15 = Inr (rev tiedSample)"
    by (simp add: searchWithCache_def m truncateTo_def) (simp add: tiedSample_def)
  have v: "map URL (rev tiedSample) =
     [''m'', ''l'', ''k'', ''j'', ''i'', ''h'', ''g'', ''f'', ''e'', ''d'', ''c'', ''b'', ''a'']"
    by (simp add: tiedSample_def mkResult_def)
  from tieReversingSort_meets_spec m u s r v show ?thesis by blast
qed

text \<open>
  Claim C2, amended: deduplication preserves the first-seen order (the merged list is a
  subsequence of the received results, holds every URL once, and holds for every URL the
  first result received with it); the merged list is then rearranged by
  \<^verbatim>\<open>sort.Slice\<close> into non-increasing score order and cut to \<open>maxResults\<close>. The sort
  is not guaranteed to be stable, so the relative order of results with equal scores is
  not determined; when no two merged results have the same score the output is
  determined: it is the stably sorted merged list, cut to \<open>maxResults\<close>.
\<close>

theorem C2_first_seen_then_sorted:
  assumes "sortSliceSpec srt byScoreDesc"
    and "searchWithCache srt outcomes maxResults = Inr rs"
  shows "subseq (mergeResults (receivedBatches outcomes)) (concat (receivedBatches outcomes)) \<and>
    distinct (map URL (mergeResults (receivedBatches outcomes))) \<and>
    (\<forall>u. find (\<lambda>x. URL x = u) (mergeResults (receivedBatches outcomes)) =
          find (\<lambda>x. URL x = u) (concat (receivedBatches outcomes))) \<and>
    rs = take (nat maxResults) (srt byScoreDesc (mergeResults (receivedBatches outcomes))) \<and>
    mset (srt byScoreDesc (mergeResults (receivedBatches outcomes))) =
      mset (mergeResults (receivedBatches outcomes)) \<and>
    sorted_wrt (\<lambda>a b. Score b \<le> Score a) rs \<and>
    (distinct (map Score (mergeResults (receivedBatches outcomes))) \<longrightarrow>
       rs = take (nat maxResults)
              (insertionSort byScoreDesc (mergeResults (receivedBatches outcomes))))"
proof -
  let ?m = "mergeResults (receivedBatches outcomes)"
  let ?all = "concat (receivedBatches outcomes)"
  have a: "subseq ?m ?all" by (simp add: mergeResults_dedupFirst subseq_dedupFirst)
  have b: "distinct (map URL ?m)" by (simp add: mergeResults_dedupFirst distinct_dedupFirst)
  have c: "\<forall>u. find (\<lambda>x. URL x = u) ?m = find (\<lambda>x. URL x = u) ?all"
    by (simp add: mergeResults_dedupFirst find_dedupFirst)
  from assms(2) have "truncateTo maxResults (srt byScoreDesc ?m) = Inr rs"
    by (simp add: searchWithCache_def)
  then have d: "rs = take (nat maxResults) (srt byScoreDesc ?m)" by (rule truncateTo_Inr)
  have e: "mset (srt byScoreDesc ?m) = mset ?m" by (rule sortSliceSpec_score(1) [OF assms(1)])
  have ss: "sorted_wrt (\<lambda>a b. Score b \<le> Score a) (srt byScoreDesc ?m)"
    by (rule sortSliceSpec_score(2) [OF assms(1)])
  then have f: "sorted_wrt (\<lambda>a b. Score b \<le> Score a) rs" unfolding d by (rule sorted_wrt_take)
  have g: "distinct (map Score ?m) \<longrightarrow> rs = take (nat maxResults) (insertionSort byScoreDesc ?m)"
  proof
    assume dm: "distinct (map Score ?m)"
    have "insertionSort byScoreDesc ?m = srt byScoreDesc ?m"
    proof (rule sorted_by_score_unique)
      show "mset (insertionSort byScoreDesc ?m) = mset (srt byScoreDesc ?m)"
        by (simp add: e mset_insertionSort)
      show "sorted_wrt (\<lambda>a b. Score b \<le> Score a) (insertionSort byScoreDesc ?m)"
        by (rule sortSliceSpec_score(2) [OF insertionSort_meets_spec])
      show "sorted_wrt (\<lambda>a b. Score b \<le> Score a) (srt byScoreDesc ?m)" by (rule ss)
      have "mset (map Score (insertionSort byScoreDesc ?m)) = mset (map Score ?m)"
        by (simp add: mset_insertionSort)
      with dm show "distinct (map Score (insertionSort byScoreDesc ?m))"
        using mset_eq_imp_distinct_iff by blast
    qed
    with d show "rs = take (nat maxResults) (insertionSort byScoreDesc ?m)" by simp
  qed
  from a b c d e f g show ?thesis by blast
qed

theorem C2_first_seen_then_sorted_witness:
  "sortSliceSpec tieReversingSort byScoreDesc \<and>
   searchWithCache tieReversingSort
     [Inr [mkResult ''a.com/1'' (1/2), mkResult ''b.com/2'' (9/10)],
      Inr [mkResult ''a.com/1'' (4/5), mkResult ''c.com/3'' (7/10)]] 5 =
     Inr [mkResult ''b.com/2'' (9/10), mkResult ''c.com/3'' (7/10), mkResult ''a.com/1'' (1/2)] \<and>
   mergeResults (receivedBatches
     [Inr [mkResult ''a.com/1'' (1/2), mkResult ''b.com/2'' (9/10)],
      Inr [mkResult ''a.com/1'' (4/5), mkResult ''c.com/3'' (7/10)]]) =
     [mkResult ''a.com/1'' (1/2), mkResult ''b.com/2'' (9/10), mkResult ''c.com/3'' (7/10)] \<and>
   distinct (map Score
     [mkResult ''a.com/1'' (1/2), mkResult ''b.com/2'' (9/10), mkResult ''c.com/3'' (7/10)]) \<and>
   [mkResult ''b.com/2'' (9/10), mkResult ''c.com/3'' (7/10), mkResult ''a.com/1'' (1/2)] =
     take (nat 5) (insertionSort byScoreDesc
       [mkResult ''a.com/1'' (1/2), mkResult ''b.com/2'' (9/10), mkResult ''c.com/3'' (7/10)])"
proof -
  let ?outs = "[Inr [mkResult ''a.com/1'' (1/2), mkResult ''b.com/2'' (9/10)],
      Inr [mkResult ''a.com/1'' (4/5), mkResult ''c.com/3'' (7/10)]]"
  let ?m = "[mkResult ''a.com/1'' (1/2), mkResult ''b.com/2'' (9/10), mkResult ''c.com/3'' (7/10)]"
  let ?rs = "[mkResult ''b.com/2'' (9/10), mkResult ''c.com/3'' (7/10), mkResult ''a.com/1'' (1/2)]"
  have m: "mergeResults (receivedBatches ?outs) = ?m"
    by (simp add: receivedBatches_def mergeResults_def mkResult_def)
  have run: "searchWithCache tieReversingSort ?outs 5 = Inr ?rs"
    by (simp add: searchWithCache_def m truncateTo_def tieReversingSort_def insertionSort_def
        byScoreDesc_def) (simp add: mkResult_def)
  have ds: "distinct (map Score ?m)" by (simp add: mkResult_def)
  from C2_first_seen_then_sorted [OF tieReversingSort_meets_spec run]
  have "distinct (map Score (mergeResults (receivedBatches ?outs))) \<longrightarrow>
        ?rs = take (nat 5) (insertionSort byScoreDesc (mergeResults (receivedBatches ?outs)))"
    by blast
  then have "distinct (map Score ?m) \<longrightarrow> ?rs = take (nat 5) (insertionSort byScoreDesc ?m)"
    by (simp only: m)
  with ds have "?rs = take (nat 5) (insertionSort byScoreDesc ?m)" by blast
  with tieReversingSort_meets_spec run m ds show ?thesis by blast
qed

section \<open>Critic loop (internal/domain/critic.go, internal/service/query.go)\<close>

record CriticResult =
  Approved :: bool
  Issues :: "string list"
  Suggestions :: "string list"
  Confidence :: real

record CriticConfig =
  MaxRetries :: int
  StrictMode :: bool

definition NeedsRevisionStrict :: "CriticResult \<Rightarrow> bool \<Rightarrow> bool" where
  "NeedsRevisionStrict r strictMode =
     (\<not> Approved r \<or> length (Issues r) > 0 \<or> (strictMode \<and> length (Suggestions r) > 0))"

text \<open>\<^verbatim>\<open>NewQueryService\<close> replaces a zero \<^verbatim>\<open>MaxRetries\<close> by 2.\<close>

definition NewQueryService_criticConfig :: "CriticConfig \<Rightarrow> CriticConfig" where
  "NewQueryService_criticConfig c = (if MaxRetries c = 0 then c\<lparr>MaxRetries := 2\<rparr> else c)"

text \<open>
  The critic and the language model are outside the program. \<open>review\<close> stands for
  \<^verbatim>\<open>s.critic.Review\<close> and \<open>improve\<close> for \<^verbatim>\<open>s.improveAnswer\<close>, which builds a prompt
  and makes exactly one call of the language model; sources and question do not change
  during the loop. Both take the state \<open>w\<close> of the outside world and return the next
  one, so successive calls may answer differently. The loop is
  \<^verbatim>\<open>for attempt := 0; attempt <= MaxRetries; attempt++\<close>; the two counters record how
  often \<open>review\<close> and \<open>improve\<close> have been called.
\<close>

function criticLoop ::
  "('w \<Rightarrow> string \<Rightarrow> (error + CriticResult) \<times> 'w) \<Rightarrow>
   ('w \<Rightarrow> string \<Rightarrow> CriticResult \<Rightarrow> (error + string) \<times> 'w) \<Rightarrow>
   CriticConfig \<Rightarrow> int \<Rightarrow> 'w \<Rightarrow> string \<Rightarrow> nat \<Rightarrow> nat \<Rightarrow> string \<times> nat \<times> nat \<times> 'w" where
  "criticLoop review improve cfg attempt w currentAnswer nReview nImprove =
     (if attempt \<le> MaxRetries cfg then
        (case review w currentAnswer of
           (Inl err, w1) \<Rightarrow> (currentAnswer, nReview + 1, nImprove, w1)
         | (Inr result, w1) \<Rightarrow>
             if \<not> NeedsRevisionStrict result (StrictMode cfg)
             then (currentAnswer, nReview + 1, nImprove, w1)
             else if attempt \<ge> MaxRetries cfg
             then (currentAnswer, nReview + 1, nImprove, w1)
             else (case improve w1 currentAnswer result of
                     (Inl err, w2) \<Rightarrow> (currentAnswer, nReview + 1, nImprove + 1, w2)
                   | (Inr improvedAnswer, w2) \<Rightarrow>
                       criticLoop review improve cfg (attempt + 1) w2 improvedAnswer
                         (nReview + 1) (nImprove + 1)))
      else (currentAnswer, nReview, nImprove, w))"
  by pat_completeness auto
termination
  by (relation "measure (\<lambda>(review, improve, cfg, attempt, w, cur, nr, ni).
        nat (MaxRetries cfg + 1 - attempt))") auto

declare criticLoop.simps [simp del]

definition reviewWithCritic ::
  "('w \<Rightarrow> string \<Rightarrow> (error + CriticResult) \<times> 'w) \<Rightarrow>
   ('w \<Rightarrow> string \<Rightarrow> CriticResult \<Rightarrow> (error + string) \<times> 'w) \<Rightarrow>
   CriticConfig \<Rightarrow> 'w \<Rightarrow> string \<Rightarrow> string \<times> nat \<times> nat \<times> 'w" where
  "reviewWithCritic review improve cfg w answer = criticLoop review improve cfg 0 w answer 0 0"

lemma criticLoop_counts:
  assumes "criticLoop review improve cfg attempt w cur nr ni = (final, nr', ni', w')"
  shows "int nr' \<le> int nr + max 0 (MaxRetries cfg + 1 - attempt) \<and>
         int ni' \<le> int ni + max 0 (MaxRetries cfg - attempt)"
  using assms
proof (induction review improve cfg attempt w cur nr ni rule: criticLoop.induct)
  case (1 review improve cfg attempt w cur nr ni)
  show ?case
  proof (cases "attempt \<le> MaxRetries cfg")
    case False
    with "1.prems" show ?thesis by (simp add: criticLoop.simps [of review improve cfg attempt])
  next
    case le: True
    obtain out w1 where rv: "review w cur = (out, w1)" by (cases "review w cur")
    show ?thesis
    proof (cases out)
      case (Inl err)
      with "1.prems" le rv show ?thesis
        by (auto simp: criticLoop.simps [of review improve cfg attempt])
    next
      case (Inr result)
      show ?thesis
      proof (cases "\<not> NeedsRevisionStrict result (StrictMode cfg) \<or> attempt \<ge> MaxRetries cfg")
        case True
        with "1.prems" le rv Inr show ?thesis
          by (auto simp: criticLoop.simps [of review improve cfg attempt] split: if_splits)
      next
        case False
        obtain out2 w2 where im: "improve w1 cur result = (out2, w2)"
          by (cases "improve w1 cur result")
        show ?thesis
        proof (cases out2)
          case (Inl err)
          with "1.prems" le rv Inr False im show ?thesis
            by (auto simp: criticLoop.simps [of review improve cfg attempt] split: if_splits)
        next
          case inr2: (Inr improved)
          from "1.prems" le rv Inr False im inr2
          have rec: "criticLoop review improve cfg (attempt + 1) w2 improved (nr + 1) (ni + 1) =
                (final, nr', ni', w')"
            by (simp add: criticLoop.simps [of review improve cfg attempt])
          from False have n1: "\<not> \<not> NeedsRevisionStrict result (StrictMode cfg)"
            and n2: "\<not> MaxRetries cfg \<le> attempt" by auto
          have "int nr' \<le> int (nr + 1) + max 0 (MaxRetries cfg + 1 - (attempt + 1)) \<and>
                int ni' \<le> int (ni + 1) + max 0 (MaxRetries cfg - (attempt + 1))"
            by (rule "1.IH" [OF le rv [symmetric] Inr n1 n2 im [symmetric] inr2 rec])
          with n2 show ?thesis by auto
        qed
      qed
    qed
  qed
qed

lemma criticLoop_review_error:
  assumes "attempt \<le> MaxRetries cfg" and "fst (review w cur) = Inl err"
  shows "fst (criticLoop review improve cfg attempt w cur nr ni) = cur"
  using assms by (cases "review w cur") (simp add: criticLoop.simps [of review improve cfg attempt])

lemma criticLoop_improve_error:
  assumes "attempt < MaxRetries cfg" and "review w cur = (Inr result, w1)"
    and "NeedsRevisionStrict result (StrictMode cfg)"
    and "fst (improve w1 cur result) = Inl err"
  shows "fst (criticLoop review improve cfg attempt w cur nr ni) = cur"
  using assms
  by (cases "improve w1 cur result") (simp add: criticLoop.simps [of review improve cfg attempt])

lemma NewQueryService_criticConfig_zero:
  "MaxRetries (NewQueryService_criticConfig \<lparr>MaxRetries = 0, StrictMode = s\<rparr>) = 2"
  by (simp add: NewQueryService_criticConfig_def)

text \<open>A critic that rejects the first answer it sees and approves afterwards, a critic
  that always rejects, one that fails, and improvement steps that succeed or fail. The
  state of the outside world is the number of reviews made so far.\<close>

definition rejectOnce :: "nat \<Rightarrow> string \<Rightarrow> (error + CriticResult) \<times> nat" where
  "rejectOnce w a =
     (Inr (if w = 0
           then \<lparr>Approved = False, Issues = [''unsupported claim''], Suggestions = [],
                 Confidence = 2/5\<rparr>
           else \<lparr>Approved = True, Issues = [], Suggestions = [], Confidence = 9/10\<rparr>),
      Suc w)"

definition rejectAlways :: "nat \<Rightarrow> string \<Rightarrow> (error + CriticResult) \<times> nat" where
  "rejectAlways w a =
     (Inr \<lparr>Approved = False, Issues = [''unsupported claim''], Suggestions = [],
            Confidence = 2/5\<rparr>, Suc w)"

definition reviewFails :: "nat \<Rightarrow> string \<Rightarrow> (error + CriticResult) \<times> nat" where
  "reviewFails w a = (Inl (ErrOther ''rate limit exceeded''), Suc w)"

definition revise :: "nat \<Rightarrow> string \<Rightarrow> CriticResult \<Rightarrow> (error + string) \<times> nat" where
  "revise w a r = (Inr (a @ '' (revised)''), w)"

definition reviseFails :: "nat \<Rightarrow> string \<Rightarrow> CriticResult \<Rightarrow> (error + string) \<times> nat" where
  "reviseFails w a r = (Inl (ErrOther ''request failed''), w)"

text \<open>
  Claim C3: with \<open>MaxRetries = R \<ge> 0\<close> the critic loop terminates (\<open>criticLoop\<close> is a
  total function: its recursion decreases \<open>R + 1 - attempt\<close>), calls Review at most
  \<open>R + 1\<close> times and the improve step at most \<open>R\<close> times, and returns an answer; an
  error of the critic or of the improve step, at any iteration, makes the loop return
  the answer that is current at that iteration.
\<close>

theorem C3_critic_loop_bounded:
  "(0 \<le> MaxRetries cfg \<and>
    reviewWithCritic review improve cfg w answer = (final, nReview, nImprove, w') \<longrightarrow>
      int nReview \<le> MaxRetries cfg + 1 \<and> int nImprove \<le> MaxRetries cfg) \<and>
   (attempt \<le> MaxRetries cfg \<and> fst (review w cur) = Inl err \<longrightarrow>
      fst (criticLoop review improve cfg attempt w cur nr ni) = cur) \<and>
   (attempt < MaxRetries cfg \<and> review w cur = (Inr result, w1) \<and>
    NeedsRevisionStrict result (StrictMode cfg) \<and> fst (improve w1 cur result) = Inl err \<longrightarrow>
      fst (criticLoop review improve cfg attempt w cur nr ni) = cur)"
proof (intro conjI impI)
  assume a: "0 \<le> MaxRetries cfg \<and>
    reviewWithCritic review improve cfg w answer = (final, nReview, nImprove, w')"
  then have "criticLoop review improve cfg 0 w answer 0 0 = (final, nReview, nImprove, w')"
    by (simp add: reviewWithCritic_def)
  from criticLoop_counts [OF this] a
  show "int nReview \<le> MaxRetries cfg + 1" and "int nImprove \<le> MaxRetries cfg" by simp_all
next
  assume "attempt \<le> MaxRetries cfg \<and> fst (review w cur) = Inl err"
  then have b1: "attempt \<le> MaxRetries cfg" and b2: "fst (review w cur) = Inl err" by simp_all
  show "fst (criticLoop review improve cfg attempt w cur nr ni) = cur"
    using b1 b2 by (rule criticLoop_review_error [where review = review and w = w and cur = cur])
next
  assume "attempt < MaxRetries cfg \<and> review w cur = (Inr result, w1) \<and>
    NeedsRevisionStrict result (StrictMode cfg) \<and> fst (improve w1 cur result) = Inl err"
  then have c1: "attempt < MaxRetries cfg" and c2: "review w cur = (Inr result, w1)"
    and c3: "NeedsRevisionStrict result (StrictMode cfg)"
    and c4: "fst (improve w1 cur result) = Inl err" by simp_all
  show "fst (criticLoop review improve cfg attempt w cur nr ni) = cur"
    using c1 c2 c3 c4
    by (rule criticLoop_improve_error [where review = review and improve = improve and w = w
          and cur = cur and ?w1.0 = w1 and result = result])
qed

theorem C3_critic_loop_bounded_witness:
  "0 \<le> MaxRetries \<lparr>MaxRetries = 3, StrictMode = False\<rparr> \<and>
   reviewWithCritic rejectOnce revise \<lparr>MaxRetries = 3, StrictMode = False\<rparr> 0 ''draft'' =
     (''draft (revised)'', 2, 1, 2) \<and>
   int 2 \<le> MaxRetries \<lparr>MaxRetries = 3, StrictMode = False\<rparr> + 1 \<and>
   int 1 \<le> MaxRetries \<lparr>MaxRetries = 3, StrictMode = False\<rparr> \<and>
   fst (reviewFails 0 ''draft'') = Inl (ErrOther ''rate limit exceeded'') \<and>
   fst (criticLoop reviewFails revise \<lparr>MaxRetries = 3, StrictMode = False\<rparr> 0 0 ''draft'' 0 0) =
     ''draft'' \<and>
   fst (reviseFails 1 ''draft'' \<lparr>Approved = False, Issues = [''unsupported claim''],
       Suggestions = [], Confidence = 2/5\<rparr>) = Inl (ErrOther ''request failed'') \<and>
   fst (criticLoop rejectAlways reviseFails \<lparr>MaxRetries = 3, StrictMode = False\<rparr> 0 0 ''draft'' 0 0) =
     ''draft''"
proof -
  let ?cfg = "\<lparr>MaxRetries = 3, StrictMode = False\<rparr>"
  let ?rej = "\<lparr>Approved = False, Issues = [''unsupported claim''], Suggestions = [],
      Confidence = 2/5\<rparr>"
  have r: "0 \<le> MaxRetries ?cfg" by simp
  have run: "reviewWithCritic rejectOnce revise ?cfg 0 ''draft'' = (''draft (revised)'', 2, 1, 2)"
    by (simp add: reviewWithCritic_def criticLoop.simps rejectOnce_def revise_def
        NeedsRevisionStrict_def)
  from r run C3_critic_loop_bounded [of ?cfg rejectOnce revise 0 "''draft''" "''draft (revised)''" 2 1 2]
  have c: "int 2 \<le> MaxRetries ?cfg + 1 \<and> int 1 \<le> MaxRetries ?cfg" by blast
  have e1: "fst (reviewFails 0 ''draft'') = Inl (ErrOther ''rate limit exceeded'')"
    by (simp add: reviewFails_def)
  with C3_critic_loop_bounded [of ?cfg reviewFails revise 0 "''draft''" _ _ _ _ 0 "''draft''"
      "ErrOther ''rate limit exceeded''" 0 0]
  have f1: "fst (criticLoop reviewFails revise ?cfg 0 0 ''draft'' 0 0) = ''draft''" by simp
  have rv: "rejectAlways 0 ''draft'' = (Inr ?rej, 1)" by (simp add: rejectAlways_def)
  have nd: "NeedsRevisionStrict ?rej (StrictMode ?cfg)" by (simp add: NeedsRevisionStrict_def)
  have e2: "fst (reviseFails 1 ''draft'' ?rej) = Inl (ErrOther ''request failed'')"
    by (simp add: reviseFails_def)
  have lt: "(0::int) < MaxRetries ?cfg" by simp
  from lt rv nd e2
    C3_critic_loop_bounded [of ?cfg rejectAlways reviseFails 0 "''draft''" _ _ _ _ 0 "''draft''"
      "ErrOther ''request failed''" 0 0 ?rej 1]
  have f2: "fst (criticLoop rejectAlways reviseFails ?cfg 0 0 ''draft'' 0 0) = ''draft''" by blast
  from r run c e1 f1 e2 f2 show ?thesis by blast
qed

section \<open>Critic review (internal/service/critic.go)\<close>

text \<open>Decimal digits of a natural number, as \<^verbatim>\<open>%d\<close> prints a non-negative integer.\<close>

fun decimal :: "nat \<Rightarrow> string" where
  "decimal n =
     (if n < 10 then [char_of (48 + n)]
      else decimal (n div 10) @ [char_of (48 + n mod 10)])"

declare decimal.simps [simp del]

definition nl :: string where
  "nl = [CHR 0x0A]"

text \<open>\<^verbatim>\<open>content[:n] + "..."\<close> when the content has more than \<open>n\<close> bytes.\<close>

definition clip :: "nat \<Rightarrow> string \<Rightarrow> string" where
  "clip n content = (if length content > n then take n content @ ''...'' else content)"

definition buildPrompt :: "string \<Rightarrow> SearchResult list \<Rightarrow> string \<Rightarrow> string" where
  "buildPrompt answer sources question =
     ''=== ORIGINAL QUESTION ==='' @ nl @ question @ nl @ nl @
     ''=== SOURCES PROVIDED ==='' @ nl @
     (if length sources = 0 then ''No sources provided.'' @ nl
      else concat (map (\<lambda>(i, src).
             ''[S'' @ decimal (i + 1) @ ''] '' @ Title src @ '' ('' @ URL src @ '')'' @ nl @
             ''Content: '' @ clip 1500 (Content src) @ nl @ nl) (enumerate 0 sources))) @
     ''=== ANSWER TO REVIEW ==='' @ nl @ answer @ nl @ nl @
     ''=== INSTRUCTIONS ==='' @ nl @
     ''Please evaluate the answer above. Check if all claims are supported by the sources, '' @
     ''if the answer is complete, and if there are any hallucinations or unsupported facts. '' @
     ''Respond with JSON only.''"

text \<open>
  The loop of \<^verbatim>\<open>extractJSON\<close> from the first opening brace on: the text up to the
  brace that brings the depth back to 0, or \<open>None\<close> when the text ends before.
\<close>

fun braceScan :: "int \<Rightarrow> string \<Rightarrow> string option" where
  "braceScan depth [] = None"
| "braceScan depth (c # cs) =
     (if c = CHR ''{'' then map_option (Cons c) (braceScan (depth + 1) cs)
      else if c = CHR ''}'' then
        (if depth - 1 = 0 then Some [c] else map_option (Cons c) (braceScan (depth - 1) cs))
      else map_option (Cons c) (braceScan depth cs))"

definition extractJSON :: "string \<Rightarrow> string" where
  "extractJSON s =
     (case dropWhile (\<lambda>c. c \<noteq> CHR ''{'') s of
        [] \<Rightarrow> s
      | rest \<Rightarrow> (case braceScan 0 rest of Some js \<Rightarrow> js | None \<Rightarrow> rest))"

text \<open>
  \<^verbatim>\<open>json.Unmarshal\<close> into the four fields belongs to the standard library; \<open>unmarshal\<close>
  stands for it and returns \<open>None\<close> when it reports an error.
\<close>

definition parseResponse :: "(string \<Rightarrow> CriticResult option) \<Rightarrow> string \<Rightarrow> CriticResult" where
  "parseResponse unmarshal llmResponse =
     (case unmarshal (extractJSON llmResponse) of
        None \<Rightarrow> \<lparr>Approved = True,
                  Issues = [''critic_parse_failed: could not parse LLM response''],
                  Suggestions = [], Confidence = 3/10\<rparr>
      | Some result \<Rightarrow> \<lparr>Approved = Approved result, Issues = Issues result,
                  Suggestions = Suggestions result, Confidence = Confidence result\<rparr>)"

text \<open>
  \<open>ctxErr\<close> is \<^verbatim>\<open>ctx.Err()\<close> when the context is done; \<open>llm\<close> is the language model
  called with the critic's system prompt and the given user prompt.
\<close>

definition Review ::
  "(string \<Rightarrow> CriticResult option) \<Rightarrow> (string \<Rightarrow> error + string) \<Rightarrow> error option \<Rightarrow>
   string \<Rightarrow> SearchResult list \<Rightarrow> string \<Rightarrow> error + CriticResult" where
  "Review unmarshal llm ctxErr answer sources question =
     (case ctxErr of
        Some err \<Rightarrow> Inl err
      | None \<Rightarrow>
          (case llm (buildPrompt answer sources question) of
             Inl err \<Rightarrow> Inl err
           | Inr response \<Rightarrow> Inr (parseResponse unmarshal response)))"

text \<open>A stand-in for the decoder: it accepts the empty object only, which leaves every
  field at its zero value.\<close>

definition emptyObjectOnly :: "string \<Rightarrow> CriticResult option" where
  "emptyObjectOnly s =
     (if s = ''{}'' then Some \<lparr>Approved = False, Issues = [], Suggestions = [], Confidence = 0\<rparr>
      else None)"

text \<open>
  Claim C4: when the JSON extracted from the response of the language model does not
  parse, the parser returns the tolerant result (approved, confidence 0.3, one issue
  that records the parse failure and starts with \<open>critic_parse_failed\<close>), and Review
  returns this result without an error.
\<close>

theorem C4_parse_failure_is_tolerated:
  assumes "unmarshal (extractJSON response) = None"
    and "llm (buildPrompt answer sources question) = Inr response"
  shows "parseResponse unmarshal response =
           \<lparr>Approved = True, Issues = [''critic_parse_failed: could not parse LLM response''],
            Suggestions = [], Confidence = 3/10\<rparr> \<and>
         Review unmarshal llm None answer sources question =
           Inr \<lparr>Approved = True, Issues = [''critic_parse_failed: could not parse LLM response''],
                Suggestions = [], Confidence = 3/10\<rparr> \<and>
         prefix ''critic_parse_failed'' (hd (Issues (parseResponse unmarshal response)))"
  using assms by (simp add: parseResponse_def Review_def)

theorem C4_parse_failure_is_tolerated_witness:
  "extractJSON ''The answer looks fine {approved: yes'' = ''{approved: yes'' \<and>
   emptyObjectOnly (extractJSON ''The answer looks fine {approved: yes'') = None \<and>
   parseResponse emptyObjectOnly ''The answer looks fine {approved: yes'' =
     \<lparr>Approved = True, Issues = [''critic_parse_failed: could not parse LLM response''],
      Suggestions = [], Confidence = 3/10\<rparr> \<and>
   Review emptyObjectOnly (\<lambda>p. Inr ''The answer looks fine {approved: yes'') None
       ''draft'' [] ''what is go?'' =
     Inr \<lparr>Approved = True, Issues = [''critic_parse_failed: could not parse LLM response''],
          Suggestions = [], Confidence = 3/10\<rparr>"
proof -
  have e: "extractJSON ''The answer looks fine {approved: yes'' = ''{approved: yes''"
    by (simp add: extractJSON_def)
  have u: "emptyObjectOnly (extractJSON ''The answer looks fine {approved: yes'') = None"
    by (simp add: e emptyObjectOnly_def)
  have l: "(\<lambda>p. Inr ''The answer looks fine {approved: yes'')
             (buildPrompt ''draft'' [] ''what is go?'') =
           (Inr ''The answer looks fine {approved: yes'' :: error + string)"
    by simp
  from C4_parse_failure_is_tolerated [of emptyObjectOnly, OF u l] e u
  show ?thesis by blast
qed

text \<open>The tolerant result carries an issue, so the critic loop treats it as a request
  for revision although it is approved.\<close>

lemma parse_failure_needs_revision:
  "unmarshal (extractJSON response) = None \<Longrightarrow>
   NeedsRevisionStrict (parseResponse unmarshal response) strictMode"
  by (simp add: parseResponse_def NeedsRevisionStrict_def)

lemma extractJSON_examples:
  "extractJSON ''Sure: {a {b} c} and {d}'' = ''{a {b} c}''"
  "extractJSON ''no braces'' = ''no braces''"
  "extractJSON ''x } {y}'' = ''{y}''"
  by (simp_all add: extractJSON_def)

section \<open>Source references (internal/service/query.go, toSourceRefs)\<close>

text \<open>A trust level is a string; the orchestrator's default is \<^verbatim>\<open>TrustMedium\<close>.\<close>

definition TrustHigh :: string where "TrustHigh = ''high''"
definition TrustMedium :: string where "TrustMedium = ''medium''"
definition TrustLow :: string where "TrustLow = ''low''"

record SourceRef =
  Marker :: string
  RefTitle :: string
  RefURL :: string
  TrustLevel :: string

record QueryResponse =
  ResponseText :: string
  Sources :: "SourceRef list"

definition TrimPrefix :: "string \<Rightarrow> string \<Rightarrow> string" where
  "TrimPrefix s p = (if prefix p s then drop (length p) s else s)"

text \<open>\<^verbatim>\<open>url[:idx]\<close> for the first slash is the text before it, and the whole text when
  there is no slash.\<close>

definition extractDomain :: "string \<Rightarrow> string" where
  "extractDomain url =
     (let u1 = TrimPrefix url ''https://'';
          u2 = TrimPrefix u1 ''http://'';
          u3 = takeWhile (\<lambda>c. c \<noteq> CHR ''/'') u2
      in TrimPrefix u3 ''www.'')"

definition toSourceRefs :: "SearchResult list \<Rightarrow> (string \<rightharpoonup> string) \<Rightarrow> SourceRef list" where
  "toSourceRefs results trustMap =
     map (\<lambda>(i, r).
           \<lparr>Marker = ''[S'' @ decimal (i + 1) @ '']'',
            RefTitle = Title r,
            RefURL = URL r,
            TrustLevel = (case trustMap (extractDomain (URL r)) of
                            Some level \<Rightarrow> level
                          | None \<Rightarrow> TrustMedium)\<rparr>)
         (enumerate 0 results)"

text \<open>
  The trust map of \<^verbatim>\<open>Process\<close>, from the pairs of \<^verbatim>\<open>src.Domain()\<close> and
  \<^verbatim>\<open>src.TrustLevel\<close> of the user's sources: empty domains are skipped, a later
  source overwrites an earlier one with the same domain.
\<close>

definition buildTrustMap :: "(string \<times> string) list \<Rightarrow> (string \<rightharpoonup> string)" where
  "buildTrustMap userSources =
     foldl (\<lambda>m (d, level). if d \<noteq> [] then m(d \<mapsto> level) else m) Map.empty userSources"

definition buildResponse :: "string \<Rightarrow> SearchResult list \<Rightarrow> (string \<rightharpoonup> string) \<Rightarrow> QueryResponse" where
  "buildResponse answer results trustMap =
     \<lparr>ResponseText = answer, Sources = toSourceRefs results trustMap\<rparr>"

text \<open>The number a string of decimal digits denotes.\<close>

definition digitsValue :: "string \<Rightarrow> nat" where
  "digitsValue s = foldl (\<lambda>a c. 10 * a + (of_char c - 48)) 0 s"

lemma digitsValue_snoc: "digitsValue (s @ [c]) = 10 * digitsValue s + (of_char c - 48)"
  by (simp add: digitsValue_def)

lemma of_char_digit: "d < 10 \<Longrightarrow> of_char (char_of (48 + d)) = (48 + d :: nat)"
  by simp

lemma digitsValue_decimal: "digitsValue (decimal n) = n"
proof (induction n rule: decimal.induct)
  case (1 n)
  show ?case
  proof (cases "n < 10")
    case True
    then show ?thesis by (subst decimal.simps) (simp add: digitsValue_def)
  next
    case False
    then have "digitsValue (decimal n) =
        10 * digitsValue (decimal (n div 10)) + (of_char (char_of (48 + n mod 10)) - 48)"
      by (subst decimal.simps) (simp add: digitsValue_snoc)
    also have "\<dots> = 10 * (n div 10) + n mod 10"
      using False "1.IH" by (simp add: of_char_digit)
    finally show ?thesis by simp
  qed
qed

lemma toSourceRefs_nth:
  assumes "i < length results"
  shows "toSourceRefs results trustMap ! i =
           \<lparr>Marker = ''[S'' @ decimal (i + 1) @ '']'',
            RefTitle = Title (results ! i),
            RefURL = URL (results ! i),
            TrustLevel = (case trustMap (extractDomain (URL (results ! i))) of
                            Some level \<Rightarrow> level
                          | None \<Rightarrow> TrustMedium)\<rparr>"
  using assms by (simp add: toSourceRefs_def nth_enumerate_eq)

text \<open>
  Claim C5: the Sources list of a response has exactly one entry per final search
  result, in the same order; entry \<open>i\<close> (counted from 0) carries the marker
  \<open>[S\<close>\<open>i+1\<close>\<open>]\<close>, the title and URL of result \<open>i\<close>, and the trust level that the
  domain-to-trust map gives for the result's domain, or medium when the map has no
  entry for it.
\<close>

theorem C5_sources_markers_and_trust:
  "length (Sources (buildResponse answer results trustMap)) = length results \<and>
   (\<forall>i < length results.
      Marker (Sources (buildResponse answer results trustMap) ! i) = ''[S'' @ decimal (i + 1) @ '']'' \<and>
      digitsValue (decimal (i + 1)) = i + 1 \<and>
      RefTitle (Sources (buildResponse answer results trustMap) ! i) = Title (results ! i) \<and>
      RefURL (Sources (buildResponse answer results trustMap) ! i) = URL (results ! i) \<and>
      TrustLevel (Sources (buildResponse answer results trustMap) ! i) =
        (case trustMap (extractDomain (URL (results ! i))) of
           Some level \<Rightarrow> level
         | None \<Rightarrow> TrustMedium))"
  by (simp add: buildResponse_def toSourceRefs_nth digitsValue_decimal)
     (simp add: toSourceRefs_def)

theorem C5_sources_markers_and_trust_witness:
  "(0::nat) < length [mkResult ''https://www.example.com/a'' (9/10), mkResult ''http://other.org/b'' (1/2)] \<and>
   (1::nat) < length [mkResult ''https://www.example.com/a'' (9/10), mkResult ''http://other.org/b'' (1/2)] \<and>
   Sources (buildResponse ''answer''
       [mkResult ''https://www.example.com/a'' (9/10), mkResult ''http://other.org/b'' (1/2)]
       (buildTrustMap [(''example.com'', TrustHigh), ('''', TrustLow)])) =
     [\<lparr>Marker = ''[S1]'', RefTitle = [], RefURL = ''https://www.example.com/a'', TrustLevel = ''high''\<rparr>,
      \<lparr>Marker = ''[S2]'', RefTitle = [], RefURL = ''http://other.org/b'', TrustLevel = ''medium''\<rparr>]"
proof -
  let ?rs = "[mkResult ''https://www.example.com/a'' (9/10), mkResult ''http://other.org/b'' (1/2)]"
  let ?tm = "buildTrustMap [(''example.com'', TrustHigh), ('''', TrustLow)]"
  let ?src = "Sources (buildResponse ''answer'' ?rs ?tm)"
  note th = C5_sources_markers_and_trust [of "''answer''" ?rs ?tm]
  have l0: "(0::nat) < length ?rs" and l1: "(1::nat) < length ?rs" by simp_all
  have d1: "decimal (Suc 0) = ''1''" and d2: "decimal 2 = ''2''" by code_simp+
  have e0: "extractDomain (URL (?rs ! 0)) = ''example.com''"
    by (simp add: extractDomain_def TrimPrefix_def mkResult_def)
  have e1: "extractDomain (URL (?rs ! 1)) = ''other.org''"
    by (simp add: extractDomain_def TrimPrefix_def mkResult_def)
  have t0: "?tm ''example.com'' = Some ''high''" and t1: "?tm ''other.org'' = None"
    by (simp_all add: buildTrustMap_def TrustHigh_def)
  from th have "length ?src = length ?rs" by (rule conjunct1)
  then have len: "length ?src = 2" by simp
  note i0 = th [THEN conjunct2, rule_format, OF l0]
  note i1 = th [THEN conjunct2, rule_format, OF l1]
  from i0 have m0: "Marker (?src ! 0) = ''[S1]''" by (simp add: d1)
  from i0 have r0: "RefTitle (?src ! 0) = []" by (simp add: mkResult_def)
  from i0 have u0: "RefURL (?src ! 0) = ''https://www.example.com/a''" by (simp add: mkResult_def)
  from i0 have "TrustLevel (?src ! 0) =
      (case ?tm (extractDomain (URL (?rs ! 0))) of Some level \<Rightarrow> level | None \<Rightarrow> TrustMedium)"
    by blast
  then have k0: "TrustLevel (?src ! 0) = ''high''" by (simp only: e0 t0 option.case)
  from i1 have m1: "Marker (?src ! 1) = ''[S2]''" by (simp add: d2 del: One_nat_def)
  from i1 have r1: "RefTitle (?src ! 1) = []" by (simp add: mkResult_def)
  from i1 have u1: "RefURL (?src ! 1) = ''http://other.org/b''" by (simp add: mkResult_def)
  from i1 have "TrustLevel (?src ! 1) =
      (case ?tm (extractDomain (URL (?rs ! 1))) of Some level \<Rightarrow> level | None \<Rightarrow> TrustMedium)"
    by blast
  then have k1: "TrustLevel (?src ! 1) = ''medium''"
    by (simp only: e1 t1 option.case TrustMedium_def)
  from m0 r0 u0 k0 have a0: "?src ! 0 = \<lparr>Marker = ''[S1]'', RefTitle = [],
      RefURL = ''https://www.example.com/a'', TrustLevel = ''high''\<rparr>"
    by (intro SourceRef.equality) simp_all
  from m1 r1 u1 k1 have a1: "?src ! 1 = \<lparr>Marker = ''[S2]'', RefTitle = [],
      RefURL = ''http://other.org/b'', TrustLevel = ''medium''\<rparr>"
    by (intro SourceRef.equality) simp_all
  from len a0 a1 have "?src = [\<lparr>Marker = ''[S1]'', RefTitle = [],
      RefURL = ''https://www.example.com/a'', TrustLevel = ''high''\<rparr>,
      \<lparr>Marker = ''[S2]'', RefTitle = [], RefURL = ''http://other.org/b'', TrustLevel = ''medium''\<rparr>]"
    by (intro nth_equalityI) (auto simp: less_Suc_eq numeral_2_eq_2)
  with l0 l1 show ?thesis by blast
qed

section \<open>Expert agents (internal/agent/agent.go)\<close>

text \<open>The field \<^verbatim>\<open>keywords\<close> of the source is \<open>keywordList\<close> here.\<close>

record BaseAgent =
  name :: string
  expertise :: "string list"
  keywordList :: "string list"
  systemPrompt :: string

text \<open>\<^verbatim>\<open>strings.Contains(s, sub)\<close>: \<open>sub\<close> occurs in \<open>s\<close> as a contiguous run of bytes.\<close>

fun Contains :: "string \<Rightarrow> string \<Rightarrow> bool" where
  "Contains [] sub = (sub = [])"
| "Contains (c # cs) sub = (prefix sub (c # cs) \<or> Contains cs sub)"

text \<open>
  \<^verbatim>\<open>strings.ToLower\<close> maps every Unicode letter to lower case and belongs to the
  standard library; \<open>lower\<close> stands for it. \<open>ToLowerASCII\<close> is what it does on
  texts of ASCII characters.

  \<^verbatim>\<open>float64(matches) / float64(len(b.keywords))\<close> is the quotient rounded to the nearest
  \<^verbatim>\<open>float64\<close>; \<open>rnd\<close> stands for the rounding, which is monotone and leaves
  \<open>1/2\<close> and \<open>1\<close> unchanged.
\<close>

definition ToLowerASCII :: "string \<Rightarrow> string" where
  "ToLowerASCII s =
     map (\<lambda>c. if 65 \<le> (of_char c :: nat) \<and> (of_char c :: nat) \<le> 90
              then char_of ((of_char c :: nat) + 32) else c) s"

definition countMatches :: "(string \<Rightarrow> string) \<Rightarrow> string \<Rightarrow> string list \<Rightarrow> nat" where
  "countMatches lower q kws =
     foldl (\<lambda>matches kw. if Contains q (lower kw) then matches + 1 else matches) 0 kws"

definition CanHandle :: "(real \<Rightarrow> real) \<Rightarrow> (string \<Rightarrow> string) \<Rightarrow> BaseAgent \<Rightarrow> string \<Rightarrow> real" where
  "CanHandle rnd lower b question =
     (if length (keywordList b) = 0 then 0
      else let q = lower question;
               matches = countMatches lower q (keywordList b)
           in if matches = 0 then 0
              else let conf = rnd (real matches / real (length (keywordList b)))
                   in if conf < 1/2 then 1/2 else conf)"

lemma Contains_sublist: "Contains s sub \<longleftrightarrow> sublist sub s"
proof (induction s)
  case Nil
  show ?case by simp
next
  case (Cons c cs)
  show ?case
  proof (cases sub)
    case Nil
    then show ?thesis by simp
  next
    case (Cons d ds)
    with Cons.IH show ?thesis by (auto simp: sublist_Cons_right)
  qed
qed

lemma foldl_count:
  "foldl (\<lambda>m x. if P x then m + 1 else m) (k::nat) xs = k + length (filter P xs)"
  by (induction xs arbitrary: k) simp_all

lemma countMatches_filter:
  "countMatches lower q kws = length (filter (\<lambda>kw. sublist (lower kw) q) kws)"
  by (simp add: countMatches_def foldl_count Contains_sublist)

text \<open>
  Claim C7: for an agent with a non-empty keyword set, CanHandle counts the keywordList
  whose lower-cased text occurs in the lower-cased question; it returns 0 when none
  occurs and otherwise the larger of 0.5 and matches/|keywordList|, which lies in [0.5, 1].
\<close>

theorem C7_CanHandle_score:
  assumes "keywordList b \<noteq> []"
    and "mono rnd" and "rnd (1/2) = 1/2" and "rnd 1 = 1"
    and "m = length (filter (\<lambda>kw. sublist (lower kw) (lower question)) (keywordList b))"
  shows "(m = 0 \<longrightarrow> CanHandle rnd lower b question = 0) \<and>
         (m > 0 \<longrightarrow>
            CanHandle rnd lower b question = max (1/2) (rnd (real m / real (length (keywordList b)))) \<and>
            1/2 \<le> CanHandle rnd lower b question \<and> CanHandle rnd lower b question \<le> 1)"
proof -
  let ?n = "length (keywordList b)"
  from assms(1) have n: "?n > 0" by simp
  have cm: "countMatches lower (lower question) (keywordList b) = m"
    by (simp add: countMatches_filter assms(5))
  have z: "m = 0 \<longrightarrow> CanHandle rnd lower b question = 0"
    by (simp add: CanHandle_def Let_def cm)
  have v: "m > 0 \<longrightarrow> CanHandle rnd lower b question = max (1/2) (rnd (real m / real ?n))"
    using n by (auto simp: CanHandle_def Let_def cm max_def)
  have "m \<le> ?n" unfolding assms(5) by (rule length_filter_le)
  with n have "real m / real ?n \<le> 1" by simp
  with assms(2) have "rnd (real m / real ?n) \<le> rnd 1" by (rule monoD)
  with assms(4) have "max (1/2) (rnd (real m / real ?n)) \<le> 1" by simp
  moreover have "1/2 \<le> max (1/2) (rnd (real m / real ?n))" by simp
  ultimately show ?thesis using z v by simp
qed

text \<open>An agent with five keywordList, two of which occur in the question.\<close>

definition sampleMarketAgent :: BaseAgent where
  "sampleMarketAgent =
     \<lparr>name = ''market'', expertise = [''markets''],
      keywordList = [''Market'', ''stock'', ''price'', ''bank'', ''rate''],
      systemPrompt = ''You are a market analyst.''\<rparr>"

lemma ToLowerASCII_question:
  "ToLowerASCII ''Is the STOCK market up?'' = ''is the stock market up?''"
  by code_simp

lemma ToLowerASCII_keywords:
  "map ToLowerASCII (keywordList sampleMarketAgent) = [''market'', ''stock'', ''price'', ''bank'', ''rate'']"
  by code_simp

theorem C7_CanHandle_score_witness:
  "keywordList sampleMarketAgent \<noteq> [] \<and> mono (\<lambda>x::real. x) \<and>
   (\<lambda>x::real. x) (1/2) = 1/2 \<and> (\<lambda>x::real. x) 1 = 1 \<and>
   (2::nat) = length (filter (\<lambda>kw. sublist (ToLowerASCII kw) (ToLowerASCII ''Is the STOCK market up?''))
                (keywordList sampleMarketAgent)) \<and>
   (2::nat) > 0 \<and>
   CanHandle (\<lambda>x. x) ToLowerASCII sampleMarketAgent ''Is the STOCK market up?'' = 1/2"
proof -
  have k: "keywordList sampleMarketAgent \<noteq> []" by (simp add: sampleMarketAgent_def)
  have mo: "mono (\<lambda>x::real. x)" by (simp add: mono_def)
  have "filter (\<lambda>kw. sublist (ToLowerASCII kw) (ToLowerASCII ''Is the STOCK market up?''))
          (keywordList sampleMarketAgent) = [''Market'', ''stock'']"
    by (simp only: Contains_sublist [symmetric]) code_simp
  then have c: "(2::nat) = length (filter (\<lambda>kw. sublist (ToLowerASCII kw)
      (ToLowerASCII ''Is the STOCK market up?'')) (keywordList sampleMarketAgent))"
    by simp
  have l: "length (keywordList sampleMarketAgent) = 5" by (simp add: sampleMarketAgent_def)
  from C7_CanHandle_score [OF k mo _ _ c]
  have "CanHandle (\<lambda>x. x) ToLowerASCII sampleMarketAgent ''Is the STOCK market up?'' =
        max (1/2) (real 2 / real (length (keywordList sampleMarketAgent)))"
    by simp
  then have "CanHandle (\<lambda>x. x) ToLowerASCII sampleMarketAgent ''Is the STOCK market up?'' = 1/2"
    by (simp add: l)
  with k mo c show ?thesis by simp
qed

section \<open>Agent coordinator (internal/agent/coordinator.go)\<close>

text \<open>
  An agent is a value of any type \<open>'a\<close> behind the \<^verbatim>\<open>Agent\<close> interface; \<open>canHandle\<close>
  is its method \<^verbatim>\<open>CanHandle\<close>. \<^verbatim>\<open>NewCoordinator\<close> sets the threshold to 0.3.
  Scores and the threshold are read as the decimal numbers the source writes.
\<close>

record 'a Coordinator =
  agents :: "'a list"
  minConfidence :: real

definition NewCoordinator :: "'a list \<Rightarrow> 'a Coordinator" where
  "NewCoordinator ags = \<lparr>agents = ags, minConfidence = 3/10\<rparr>"

definition maxAgentsFor :: "Strategy \<Rightarrow> int" where
  "maxAgentsFor s =
     (if Type s = StrategyQuick then 1
      else if Type s = StrategyStandard then 2
      else if Type s = StrategyDeep then 4
      else 2)"

text \<open>The comparison of \<^verbatim>\<open>selectAgents\<close>: \<^verbatim>\<open>scores[i].score > scores[j].score\<close>.\<close>

definition byConfidenceDesc :: "'a \<times> real \<Rightarrow> 'a \<times> real \<Rightarrow> bool" where
  "byConfidenceDesc x y = (snd x > snd y)"

definition selectAgents ::
  "(('a \<times> real \<Rightarrow> 'a \<times> real \<Rightarrow> bool) \<Rightarrow> ('a \<times> real) list \<Rightarrow> ('a \<times> real) list) \<Rightarrow>
   ('a \<Rightarrow> string \<Rightarrow> real) \<Rightarrow> 'a Coordinator \<Rightarrow> string \<Rightarrow> int \<Rightarrow> error + 'a list" where
  "selectAgents srt canHandle c question maxAgents =
     (if length (agents c) = 0 then Inr []
      else
        let scores = map (\<lambda>a. (a, canHandle a question)) (agents c);
            sortedScores = srt byConfidenceDesc scores;
            result = map fst (filter (\<lambda>s. snd s \<ge> minConfidence c) sortedScores);
            result = (if length result = 0 then map fst sortedScores else result)
        in truncateTo maxAgents result)"

text \<open>
  \<^verbatim>\<open>runParallel\<close> keeps the responses of the agents whose \<^verbatim>\<open>Process\<close> succeeds.
  The goroutines append in the order in which they finish; the model lists the
  responses in the order of the agents, which has the same length.
\<close>

definition runParallel :: "('a \<Rightarrow> error + 'r) \<Rightarrow> 'a list \<Rightarrow> 'r list" where
  "runParallel process ags =
     List.map_filter (\<lambda>a. case process a of Inl err \<Rightarrow> None | Inr resp \<Rightarrow> Some resp) ags"

subsection \<open>Insertion sort by a key\<close>

lemma sorted_insertLess_key:
  fixes key :: "'a \<Rightarrow> real"
  assumes "sorted_wrt (\<lambda>a b. key b \<le> key a) ys"
  shows "sorted_wrt (\<lambda>a b. key b \<le> key a) (insertLess (\<lambda>x y. key y < key x) x ys)"
  using assms
proof (induction ys)
  case Nil
  show ?case by simp
next
  case (Cons y ys)
  show ?case
  proof (cases "key y < key x")
    case True
    with Cons.prems show ?thesis by auto
  next
    case False
    with Cons show ?thesis by (auto simp: set_insertLess)
  qed
qed

lemma sorted_insertionSort_key:
  fixes key :: "'a \<Rightarrow> real"
  shows "sorted_wrt (\<lambda>a b. key b \<le> key a) (insertionSort (\<lambda>x y. key y < key x) xs)"
proof (induction xs rule: rev_induct)
  case Nil
  show ?case by (simp add: insertionSort_def)
next
  case (snoc x xs)
  then show ?case using sorted_insertLess_key by (simp add: insertionSort_def)
qed

lemma insertionSort_meets_spec_confidence:
  "sortSliceSpec insertionSort (byConfidenceDesc :: 'a \<times> real \<Rightarrow> 'a \<times> real \<Rightarrow> bool)"
proof -
  have eq: "(byConfidenceDesc :: 'a \<times> real \<Rightarrow> 'a \<times> real \<Rightarrow> bool) = (\<lambda>x y. snd y < snd x)"
    by (intro ext) (simp add: byConfidenceDesc_def)
  have "sorted_wrt (\<lambda>a b. snd b \<le> snd a) (insertionSort (\<lambda>x y. snd y < snd x) xs)"
    for xs :: "('a \<times> real) list"
    by (rule sorted_insertionSort_key)
  then show ?thesis
    unfolding sortSliceSpec_def eq by (simp add: mset_insertionSort not_less)
qed

subsection \<open>What the selection returns\<close>

lemma map_fst_filter_scores:
  "map fst (filter (\<lambda>s. t \<le> snd s) (map (\<lambda>a. (a, f a)) ags)) = filter (\<lambda>a. t \<le> f a) ags"
  by (induction ags) simp_all

lemma length_runParallel: "length (runParallel process ags) \<le> length ags"
  by (simp add: runParallel_def map_filter_def)

lemma selection_ranked:
  fixes canHandle :: "'a \<Rightarrow> string \<Rightarrow> real" and ags :: "'a list" and question :: string
  assumes spec: "sortSliceSpec srt (byConfidenceDesc :: 'a \<times> real \<Rightarrow> 'a \<times> real \<Rightarrow> bool)"
  defines "sortedScores \<equiv> srt byConfidenceDesc (map (\<lambda>a. (a, canHandle a question)) ags)"
  shows "mset (map fst (filter (\<lambda>s. t \<le> snd s) sortedScores)) =
           mset (filter (\<lambda>a. t \<le> canHandle a question) ags)"
    and "mset (map fst sortedScores) = mset ags"
    and "sorted_wrt (\<lambda>a b. canHandle b question \<le> canHandle a question)
           (map fst (filter (\<lambda>s. t \<le> snd s) sortedScores))"
    and "sorted_wrt (\<lambda>a b. canHandle b question \<le> canHandle a question) (map fst sortedScores)"
proof -
  let ?scores = "map (\<lambda>a. (a, canHandle a question)) ags"
  from spec have m: "mset sortedScores = mset ?scores"
    and s: "sorted_wrt (\<lambda>x y. \<not> byConfidenceDesc y x) sortedScores"
    by (simp_all add: sortSliceSpec_def sortedScores_def)
  from m have "set sortedScores = set ?scores" by (rule mset_eq_setD)
  then have el: "\<And>x. x \<in> set sortedScores \<Longrightarrow> snd x = canHandle (fst x) question" by auto
  have "mset (filter (\<lambda>s. t \<le> snd s) sortedScores) = mset (filter (\<lambda>s. t \<le> snd s) ?scores)"
    by (simp add: m)
  then have "mset (map fst (filter (\<lambda>s. t \<le> snd s) sortedScores)) =
             mset (map fst (filter (\<lambda>s. t \<le> snd s) ?scores))"
    by (simp only: mset_map)
  then show "mset (map fst (filter (\<lambda>s. t \<le> snd s) sortedScores)) =
           mset (filter (\<lambda>a. t \<le> canHandle a question) ags)"
    by (simp only: map_fst_filter_scores)
  from m have "mset (map fst sortedScores) = mset (map fst ?scores)" by (simp only: mset_map)
  then show "mset (map fst sortedScores) = mset ags" by (simp add: comp_def)
  have s': "sorted_wrt (\<lambda>x y. canHandle (fst y) question \<le> canHandle (fst x) question) sortedScores"
    using s
  proof (rule sorted_wrt_mono_rel [rotated])
    fix x y
    assume "x \<in> set sortedScores" "y \<in> set sortedScores" "\<not> byConfidenceDesc y x"
    then show "canHandle (fst y) question \<le> canHandle (fst x) question"
      using el by (simp add: byConfidenceDesc_def not_less)
  qed
  then show "sorted_wrt (\<lambda>a b. canHandle b question \<le> canHandle a question) (map fst sortedScores)"
    by (simp add: sorted_wrt_map)
  from s' have "sorted_wrt (\<lambda>x y. canHandle (fst y) question \<le> canHandle (fst x) question)
                  (filter (\<lambda>s. t \<le> snd s) sortedScores)"
    by (rule sorted_wrt_filter)
  then show "sorted_wrt (\<lambda>a b. canHandle b question \<le> canHandle a question)
           (map fst (filter (\<lambda>s. t \<le> snd s) sortedScores))"
    by (simp add: sorted_wrt_map)
qed

definition QuickStrategy :: Strategy where
  "QuickStrategy = \<lparr>Type = StrategyQuick, MaxQueries = 1, MaxResults = 5,
     MaxAnalysisIterations = 1, UseCritic = False, TimeoutSeconds = 30\<rparr>"

definition DeepStrategy :: Strategy where
  "DeepStrategy = \<lparr>Type = StrategyDeep, MaxQueries = 5, MaxResults = 30,
     MaxAnalysisIterations = 3, UseCritic = True, TimeoutSeconds = 180\<rparr>"

text \<open>Four agents, named by strings, with fixed scores for every question.\<close>

definition sampleScore :: "string \<Rightarrow> string \<Rightarrow> real" where
  "sampleScore a question =
     (if a = ''market'' then 1/2 else if a = ''tech'' then 4/5 else 0)"

lemma maxAgentsFor_nonneg: "0 \<le> maxAgentsFor s"
  by (simp add: maxAgentsFor_def)

text \<open>
  Claim C6: \<open>maxAgents\<close> is 1 for quick, 2 for standard, 4 for deep and 2 otherwise;
  every agent is scored with CanHandle; the agents with score at least 0.3 (all agents
  when none reaches 0.3) are ranked by descending score, and the first \<open>maxAgents\<close> of
  the ranking are selected, so that neither the selection nor the list of agents that
  answered is longer than \<open>maxAgents\<close>.
\<close>

theorem C6_agent_selection:
  fixes canHandle :: "'a \<Rightarrow> string \<Rightarrow> real"
  assumes "sortSliceSpec srt (byConfidenceDesc :: 'a \<times> real \<Rightarrow> 'a \<times> real \<Rightarrow> bool)"
  shows "maxAgentsFor s =
           (if Type s = ''quick'' then 1 else if Type s = ''standard'' then 2
            else if Type s = ''deep'' then 4 else 2) \<and>
         (\<exists>ranked.
            mset ranked =
              mset (if \<exists>a \<in> set ags. 3/10 \<le> canHandle a question
                    then filter (\<lambda>a. 3/10 \<le> canHandle a question) ags else ags) \<and>
            sorted_wrt (\<lambda>a b. canHandle b question \<le> canHandle a question) ranked \<and>
            selectAgents srt canHandle (NewCoordinator ags) question (maxAgentsFor s) =
              Inr (take (nat (maxAgentsFor s)) ranked) \<and>
            int (length (take (nat (maxAgentsFor s)) ranked)) \<le> maxAgentsFor s \<and>
            int (length (runParallel process (take (nat (maxAgentsFor s)) ranked)))
              \<le> maxAgentsFor s)"
proof -
  let ?n = "maxAgentsFor s"
  let ?f = "\<lambda>a. canHandle a question"
  let ?ss = "srt byConfidenceDesc (map (\<lambda>a. (a, canHandle a question)) ags)"
  let ?kept = "map fst (filter (\<lambda>x. 3/10 \<le> snd x) ?ss)"
  let ?ranked = "if length ?kept = 0 then map fst ?ss else ?kept"
  have m1: "maxAgentsFor s =
           (if Type s = ''quick'' then 1 else if Type s = ''standard'' then 2
            else if Type s = ''deep'' then 4 else 2)"
    by (simp add: maxAgentsFor_def StrategyQuick_def StrategyStandard_def StrategyDeep_def)
  note r1 = selection_ranked(1) [OF assms, where canHandle = canHandle and question = question
      and ags = ags and t = "3/10"]
  note r2 = selection_ranked(2) [OF assms, where canHandle = canHandle and question = question
      and ags = ags]
  note r3 = selection_ranked(3) [OF assms, where canHandle = canHandle and question = question
      and ags = ags and t = "3/10"]
  note r4 = selection_ranked(4) [OF assms, where canHandle = canHandle and question = question
      and ags = ags]
  have "?kept = [] \<longleftrightarrow> filter (\<lambda>a. 3/10 \<le> ?f a) ags = []"
    using r1 by (metis mset_zero_iff)
  then have empty: "length ?kept = 0 \<longleftrightarrow> \<not> (\<exists>a \<in> set ags. 3/10 \<le> ?f a)"
    by (simp add: filter_empty_conv)
  have a: "mset ?ranked =
      mset (if \<exists>a \<in> set ags. 3/10 \<le> ?f a then filter (\<lambda>a. 3/10 \<le> ?f a) ags else ags)"
  proof (cases "length ?kept = 0")
    case True
    with empty have "\<not> (\<exists>a \<in> set ags. 3/10 \<le> ?f a)" by simp
    with True r2 show ?thesis by simp
  next
    case False
    with empty have "\<exists>a \<in> set ags. 3/10 \<le> ?f a" by simp
    with False r1 show ?thesis by simp
  qed
  have b: "sorted_wrt (\<lambda>a b. ?f b \<le> ?f a) ?ranked"
    using r3 r4 by simp
  have c: "selectAgents srt canHandle (NewCoordinator ags) question ?n = Inr (take (nat ?n) ?ranked)"
  proof (cases "ags = []")
    case True
    from r2 True have "map fst ?ss = []" by simp
    with True show ?thesis by (simp add: selectAgents_def NewCoordinator_def)
  next
    case False
    then show ?thesis
      by (simp add: selectAgents_def NewCoordinator_def Let_def
          truncateTo_total [OF maxAgentsFor_nonneg])
  qed
  have d: "int (length (take (nat ?n) ?ranked)) \<le> ?n"
    using maxAgentsFor_nonneg [of s] by simp
  have "length (runParallel process (take (nat ?n) ?ranked)) \<le> length (take (nat ?n) ?ranked)"
    by (rule length_runParallel)
  with d have e: "int (length (runParallel process (take (nat ?n) ?ranked))) \<le> ?n" by linarith
  from a b c d e have "\<exists>ranked.
            mset ranked =
              mset (if \<exists>a \<in> set ags. 3/10 \<le> canHandle a question
                    then filter (\<lambda>a. 3/10 \<le> canHandle a question) ags else ags) \<and>
            sorted_wrt (\<lambda>a b. canHandle b question \<le> canHandle a question) ranked \<and>
            selectAgents srt canHandle (NewCoordinator ags) question (maxAgentsFor s) =
              Inr (take (nat (maxAgentsFor s)) ranked) \<and>
            int (length (take (nat (maxAgentsFor s)) ranked)) \<le> maxAgentsFor s \<and>
            int (length (runParallel process (take (nat (maxAgentsFor s)) ranked)))
              \<le> maxAgentsFor s"
    by (intro exI [of _ ?ranked] conjI)
  with m1 show ?thesis by (rule conjI)
qed

theorem C6_agent_selection_witness:
  "sortSliceSpec insertionSort (byConfidenceDesc :: string \<times> real \<Rightarrow> string \<times> real \<Rightarrow> bool) \<and>
   maxAgentsFor QuickStrategy = 1 \<and>
   selectAgents insertionSort sampleScore
       (NewCoordinator [''market'', ''regulatory'', ''tech'', ''trends'']) ''what is new in tech?''
       (maxAgentsFor QuickStrategy) = Inr [''tech''] \<and>
   selectAgents insertionSort sampleScore
       (NewCoordinator [''market'', ''regulatory'', ''tech'', ''trends'']) ''what is new in tech?''
       (maxAgentsFor DeepStrategy) = Inr [''tech'', ''market''] \<and>
   int (length [''tech'']) \<le> maxAgentsFor QuickStrategy"
proof -
  let ?ags = "[''market'', ''regulatory'', ''tech'', ''trends'']"
  let ?q = "''what is new in tech?''"
  note sp = insertionSort_meets_spec_confidence [where ?'a = string]
  note th = C6_agent_selection [OF sp, of QuickStrategy ?ags sampleScore ?q "\<lambda>a. Inr a"]
  from th have "maxAgentsFor QuickStrategy =
           (if Type QuickStrategy = ''quick'' then 1 else if Type QuickStrategy = ''standard'' then 2
            else if Type QuickStrategy = ''deep'' then 4 else 2)"
    by (rule conjunct1)
  then have q1: "maxAgentsFor QuickStrategy = 1" by (simp add: QuickStrategy_def StrategyQuick_def)
  have d4: "maxAgentsFor DeepStrategy = 4"
    by (simp add: maxAgentsFor_def DeepStrategy_def StrategyDeep_def StrategyQuick_def
        StrategyStandard_def)
  have run1: "selectAgents insertionSort sampleScore (NewCoordinator ?ags) ?q
      (maxAgentsFor QuickStrategy) = Inr [''tech'']"
    by (simp add: q1 selectAgents_def NewCoordinator_def insertionSort_def byConfidenceDesc_def
        sampleScore_def truncateTo_def Let_def)
  have run4: "selectAgents insertionSort sampleScore (NewCoordinator ?ags) ?q
      (maxAgentsFor DeepStrategy) = Inr [''tech'', ''market'']"
    by (simp add: d4 selectAgents_def NewCoordinator_def insertionSort_def byConfidenceDesc_def
        sampleScore_def truncateTo_def Let_def)
  from th obtain ranked where
    "selectAgents insertionSort sampleScore (NewCoordinator ?ags) ?q (maxAgentsFor QuickStrategy) =
       Inr (take (nat (maxAgentsFor QuickStrategy)) ranked)"
    and "int (length (take (nat (maxAgentsFor QuickStrategy)) ranked)) \<le> maxAgentsFor QuickStrategy"
    by blast
  with run1 have le: "int (length [''tech'']) \<le> maxAgentsFor QuickStrategy" by simp
  from sp q1 run1 run4 le show ?thesis by blast
qed

section \<open>Rate limiter (internal/ratelimit/ratelimit.go)\<close>

text \<open>
  Time is counted in nanoseconds. \<^verbatim>\<open>Allow\<close> reads the clock under the mutex, so the
  model passes the reading \<open>now\<close> to every call, and successive calls see readings that
  do not decrease (the monotonic clock). A user that is no key of the map has the
  \<^verbatim>\<open>nil\<close> slice.
\<close>

record Limiter =
  requests :: "int \<rightharpoonup> int list"
  limit :: int
  window :: int

record Config =
  RequestsPerMinute :: int

definition Minute :: int where
  "Minute = 60000000000"

definition New :: "Config \<Rightarrow> Limiter" where
  "New cfg =
     \<lparr>requests = Map.empty,
      limit = (if RequestsPerMinute cfg \<le> 0 then 10 else RequestsPerMinute cfg),
      window = Minute\<rparr>"

definition stored :: "Limiter \<Rightarrow> int \<Rightarrow> int list" where
  "stored l userID = (case requests l userID of None \<Rightarrow> [] | Some ts \<Rightarrow> ts)"

definition Allow :: "Limiter \<Rightarrow> int \<Rightarrow> int \<Rightarrow> bool \<times> Limiter" where
  "Allow l now userID =
     (let cutoff = now - window l;
          old = stored l userID;
          fresh = filter (\<lambda>t. t > cutoff) old
      in if int (length fresh) \<ge> limit l
         then (False, l\<lparr>requests := (requests l)(userID \<mapsto> fresh)\<rparr>)
         else (True, l\<lparr>requests := (requests l)(userID \<mapsto> fresh @ [now])\<rparr>))"

text \<open>One round of the background sweep, at clock reading \<open>now\<close>.\<close>

definition cleanup :: "Limiter \<Rightarrow> int \<Rightarrow> Limiter" where
  "cleanup l now =
     l\<lparr>requests := (\<lambda>uid.
          case requests l uid of
            None \<Rightarrow> None
          | Some ts \<Rightarrow>
              (let fresh = filter (\<lambda>t. t > now - window l) ts
               in if length fresh = 0 then None else Some fresh))\<rparr>"

text \<open>What happens to a limiter: calls of \<^verbatim>\<open>Allow\<close> and rounds of the sweep, each with
  its clock reading.\<close>

datatype call = AllowCall int | CleanupTick

fun step :: "Limiter \<Rightarrow> int \<times> call \<Rightarrow> Limiter" where
  "step l (now, AllowCall userID) = snd (Allow l now userID)"
| "step l (now, CleanupTick) = cleanup l now"

definition exec :: "Limiter \<Rightarrow> (int \<times> call) list \<Rightarrow> Limiter" where
  "exec l cs = foldl step l cs"

text \<open>The clock readings of the calls of \<open>userID\<close> that \<^verbatim>\<open>Allow\<close> admits.\<close>

fun admitted :: "Limiter \<Rightarrow> int \<Rightarrow> (int \<times> call) list \<Rightarrow> int list" where
  "admitted l userID [] = []"
| "admitted l userID ((now, AllowCall v) # cs) =
     (if fst (Allow l now v) \<and> v = userID then [now] else []) @
     admitted (snd (Allow l now v)) userID cs"
| "admitted l userID ((now, CleanupTick) # cs) = admitted (cleanup l now) userID cs"

text \<open>The calls of a trace that are not \<^verbatim>\<open>Allow\<close> calls of other users.\<close>

definition withoutOthers :: "int \<Rightarrow> (int \<times> call) list \<Rightarrow> (int \<times> call) list" where
  "withoutOthers userID cs =
     filter (\<lambda>c. case snd c of AllowCall v \<Rightarrow> v = userID | CleanupTick \<Rightarrow> True) cs"

subsection \<open>One call\<close>

lemma Allow_fst:
  "fst (Allow l now u) \<longleftrightarrow> int (length (filter (\<lambda>t. now - window l < t) (stored l u))) < limit l"
  by (simp add: Allow_def Let_def)

lemma stored_Allow_same:
  "stored (snd (Allow l now u)) u =
     filter (\<lambda>t. now - window l < t) (stored l u) @ (if fst (Allow l now u) then [now] else [])"
  by (simp add: Allow_def Let_def stored_def)

lemma stored_Allow_other: "v \<noteq> u \<Longrightarrow> stored (snd (Allow l now v)) u = stored l u"
  by (simp add: Allow_def Let_def stored_def)

lemma stored_cleanup: "stored (cleanup l now) u = filter (\<lambda>t. now - window l < t) (stored l u)"
  by (simp add: cleanup_def stored_def Let_def split: option.splits)

lemma limit_step [simp]: "limit (step l c) = limit l"
proof (cases c)
  case (Pair now k)
  then show ?thesis by (cases k) (simp_all add: Allow_def Let_def cleanup_def)
qed

lemma window_step [simp]: "window (step l c) = window l"
proof (cases c)
  case (Pair now k)
  then show ?thesis by (cases k) (simp_all add: Allow_def Let_def cleanup_def)
qed

lemma limit_exec [simp]: "limit (exec l cs) = limit l"
  unfolding exec_def by (induction cs arbitrary: l) simp_all

lemma window_exec [simp]: "window (exec l cs) = window l"
  unfolding exec_def by (induction cs arbitrary: l) simp_all

lemma exec_snoc: "exec l (cs @ [c]) = step (exec l cs) c"
  by (simp add: exec_def)

lemma admitted_step:
  "admitted l u (c # cs) =
     (case c of (now, AllowCall v) \<Rightarrow> (if fst (Allow l now v) \<and> v = u then [now] else [])
              | (now, CleanupTick) \<Rightarrow> []) @ admitted (step l c) u cs"
proof (cases c)
  case (Pair now k)
  then show ?thesis by (cases k) simp_all
qed

lemma admitted_append: "admitted l u (cs @ ds) = admitted l u cs @ admitted (exec l cs) u ds"
proof (induction cs arbitrary: l)
  case Nil
  show ?case by (simp add: exec_def)
next
  case (Cons c cs)
  show ?case by (simp add: admitted_step Cons.IH exec_def del: admitted.simps)
qed

subsection \<open>Users do not affect each other\<close>

lemma admitted_withoutOthers_gen:
  assumes "stored l u = stored l' u" and "limit l = limit l'" and "window l = window l'"
  shows "admitted l u cs = admitted l' u (withoutOthers u cs)"
  using assms
proof (induction cs arbitrary: l l')
  case Nil
  show ?case by (simp add: withoutOthers_def)
next
  case (Cons c cs)
  obtain now k where c: "c = (now, k)" by (cases c)
  show ?case
  proof (cases k)
    case CleanupTick
    have "stored (cleanup l now) u = stored (cleanup l' now) u"
      using Cons.prems by (simp add: stored_cleanup)
    moreover have "limit (cleanup l now) = limit (cleanup l' now)"
      and "window (cleanup l now) = window (cleanup l' now)"
      using Cons.prems by (simp_all add: cleanup_def)
    ultimately have "admitted (cleanup l now) u cs = admitted (cleanup l' now) u (withoutOthers u cs)"
      by (rule Cons.IH)
    with c CleanupTick show ?thesis by (simp add: withoutOthers_def)
  next
    case (AllowCall v)
    show ?thesis
    proof (cases "v = u")
      case True
      have f: "fst (Allow l now u) = fst (Allow l' now u)"
        using Cons.prems by (simp add: Allow_fst)
      then have "stored (snd (Allow l now u)) u = stored (snd (Allow l' now u)) u"
        using Cons.prems by (simp add: stored_Allow_same)
      moreover have "limit (snd (Allow l now u)) = limit (snd (Allow l' now u))"
        and "window (snd (Allow l now u)) = window (snd (Allow l' now u))"
        using Cons.prems by (simp_all add: Allow_def Let_def)
      ultimately have "admitted (snd (Allow l now u)) u cs =
                       admitted (snd (Allow l' now u)) u (withoutOthers u cs)"
        by (rule Cons.IH)
      with c AllowCall True f show ?thesis by (simp add: withoutOthers_def)
    next
      case False
      have "stored (snd (Allow l now v)) u = stored l' u"
        using Cons.prems False by (simp add: stored_Allow_other)
      moreover have "limit (snd (Allow l now v)) = limit l'"
        and "window (snd (Allow l now v)) = window l'"
        using Cons.prems by (simp_all add: Allow_def Let_def)
      ultimately have "admitted (snd (Allow l now v)) u cs = admitted l' u (withoutOthers u cs)"
        by (rule Cons.IH)
      with c AllowCall False show ?thesis by (simp add: withoutOthers_def)
    qed
  qed
qed

subsection \<open>At most \<open>limit\<close> admissions in any window\<close>

lemma filter_filter_cutoff:
  "c1 \<le> c2 \<Longrightarrow> filter (\<lambda>t. c2 < t) (filter (\<lambda>t. c1 < t) xs) = filter (\<lambda>t. (c2::int) < t) xs"
  by (induction xs) auto

lemma length_filter_mono:
  "(\<And>x. x \<in> set xs \<Longrightarrow> P x \<Longrightarrow> Q x) \<Longrightarrow> length (filter P xs) \<le> length (filter Q xs)"
  by (induction xs) auto

lemma admitted_single:
  "admitted l u [(now, k)] =
     (case k of AllowCall v \<Rightarrow> (if fst (Allow l now v) \<and> v = u then [now] else [])
              | CleanupTick \<Rightarrow> [])"
  by (cases k) simp_all

lemma stored_step_filter:
  assumes "now \<le> T"
  shows "filter (\<lambda>t. T - window l < t) (stored (step l (now, k)) u) =
         filter (\<lambda>t. T - window l < t) (stored l u) @
         filter (\<lambda>t. T - window l < t) (admitted l u [(now, k)])"
proof (cases k)
  case CleanupTick
  from assms have "now - window l \<le> T - window l" by simp
  then show ?thesis using CleanupTick by (simp add: stored_cleanup filter_filter_cutoff del: filter_filter)
next
  case (AllowCall v)
  show ?thesis
  proof (cases "v = u")
    case False
    with AllowCall show ?thesis by (simp add: stored_Allow_other)
  next
    case True
    from assms have "now - window l \<le> T - window l" by simp
    then show ?thesis
      using AllowCall True
      by (simp add: stored_Allow_same filter_filter_cutoff del: filter_filter)
  qed
qed

text \<open>
  The invariant of a run from an empty limiter under a clock that does not go back:
  within the current window the stored time stamps of a user are the admitted ones, and
  no window of the admitted time stamps holds more than \<open>limit\<close> of them.
\<close>

lemma limiter_invariant:
  assumes "sorted (map fst cs)" and "0 \<le> limit l0" and "requests l0 = Map.empty"
  shows "(\<forall>T. (\<forall>t \<in> fst ` set cs. t \<le> T) \<longrightarrow>
            filter (\<lambda>t. T - window l0 < t) (stored (exec l0 cs) u) =
            filter (\<lambda>t. T - window l0 < t) (admitted l0 u cs)) \<and>
         (\<forall>a. int (length (filter (\<lambda>t. a < t \<and> t \<le> a + window l0) (admitted l0 u cs)))
                \<le> limit l0) \<and>
         set (admitted l0 u cs) \<subseteq> fst ` set cs"
  using assms(1)
proof (induction cs rule: rev_induct)
  case Nil
  from assms(3) have "stored l0 u = []" by (simp add: stored_def)
  with assms(2) show ?case by (simp add: exec_def)
next
  case (snoc c cs)
  obtain now k where c: "c = (now, k)" by (cases c)
  let ?W = "window l0"
  let ?l = "exec l0 cs"
  let ?adm = "admitted l0 u cs"
  let ?new = "admitted ?l u [(now, k)]"
  from snoc.prems c have srt: "sorted (map fst cs)" and le: "\<forall>t \<in> fst ` set cs. t \<le> now"
    by (auto simp: sorted_append)
  from snoc.IH [OF srt]
  have i1: "\<And>T. (\<forall>t \<in> fst ` set cs. t \<le> T) \<Longrightarrow>
            filter (\<lambda>t. T - ?W < t) (stored ?l u) = filter (\<lambda>t. T - ?W < t) ?adm"
    and i2: "\<And>a. int (length (filter (\<lambda>t. a < t \<and> t \<le> a + ?W) ?adm)) \<le> limit l0"
    and i3: "set ?adm \<subseteq> fst ` set cs"
    by blast+
  have adm': "admitted l0 u (cs @ [c]) = ?adm @ ?new" by (simp add: admitted_append c)
  have adm'': "admitted l0 u (cs @ [(now, k)]) = ?adm @ ?new" by (simp add: admitted_append)
  have new_cases: "?new = [] \<or> ?new = [now]" by (cases k) (auto simp: admitted_single)
  then have new_sub: "set ?new \<subseteq> {now}" by auto
  have g1: "\<forall>T. (\<forall>t \<in> fst ` set (cs @ [c]). t \<le> T) \<longrightarrow>
            filter (\<lambda>t. T - ?W < t) (stored (exec l0 (cs @ [c])) u) =
            filter (\<lambda>t. T - ?W < t) (admitted l0 u (cs @ [c]))"
  proof (intro allI impI)
    fix T
    assume b: "\<forall>t \<in> fst ` set (cs @ [c]). t \<le> T"
    with c have nT: "now \<le> T" and bT: "\<forall>t \<in> fst ` set cs. t \<le> T" by auto
    have "filter (\<lambda>t. T - ?W < t) (stored (step ?l (now, k)) u) =
          filter (\<lambda>t. T - ?W < t) (stored ?l u) @ filter (\<lambda>t. T - ?W < t) ?new"
      using stored_step_filter [OF nT, of ?l k u] by simp
    with i1 [OF bT] show "filter (\<lambda>t. T - ?W < t) (stored (exec l0 (cs @ [c])) u) =
            filter (\<lambda>t. T - ?W < t) (admitted l0 u (cs @ [c]))"
      by (simp add: exec_snoc c adm'')
  qed
  have g2: "\<forall>a. int (length (filter (\<lambda>t. a < t \<and> t \<le> a + ?W) (admitted l0 u (cs @ [c]))))
                \<le> limit l0"
  proof
    fix a
    show "int (length (filter (\<lambda>t. a < t \<and> t \<le> a + ?W) (admitted l0 u (cs @ [c])))) \<le> limit l0"
    proof (cases "?new = [now] \<and> a < now \<and> now \<le> a + ?W")
      case False
      with new_cases have "filter (\<lambda>t. a < t \<and> t \<le> a + ?W) ?new = []"
        by auto
      with i2 [of a] show ?thesis by (simp add: adm')
    next
      case True
      then have nw: "?new = [now]" and a1: "a < now" and a2: "now \<le> a + ?W" by simp_all
      from nw have ok: "fst (Allow ?l now u)" and k: "k = AllowCall u"
        by (cases k; simp add: admitted_single split: if_splits)+
      from ok have "int (length (filter (\<lambda>t. now - ?W < t) (stored ?l u))) < limit l0"
        by (simp add: Allow_fst)
      with i1 [OF le] have fr: "int (length (filter (\<lambda>t. now - ?W < t) ?adm)) < limit l0"
        by simp
      have "length (filter (\<lambda>t. a < t \<and> t \<le> a + ?W) ?adm) \<le>
            length (filter (\<lambda>t. now - ?W < t) ?adm)"
        using a2 by (intro length_filter_mono) auto
      with fr nw a1 a2 show ?thesis by (simp add: adm')
    qed
  qed
  have g3: "set (admitted l0 u (cs @ [c])) \<subseteq> fst ` set (cs @ [c])"
    using i3 new_sub c by (auto simp: adm'')
  from g1 g2 g3 show ?case by blast
qed

lemma limit_New_pos: "0 < limit (New cfg)"
  by (simp add: New_def)

lemma Allow_after_run:
  assumes "sorted (map fst cs)" and "\<forall>t \<in> fst ` set cs. t \<le> now"
  shows "fst (Allow (exec (New cfg) cs) now u) \<longleftrightarrow>
         int (length (filter (\<lambda>t. now - Minute < t \<and> t \<le> now) (admitted (New cfg) u cs)))
           < limit (New cfg)"
proof -
  have l: "0 \<le> limit (New cfg)" using limit_New_pos [of cfg] by simp
  have e: "requests (New cfg) = Map.empty" by (simp add: New_def)
  have w: "window (New cfg) = Minute" by (simp add: New_def)
  note inv = limiter_invariant [OF assms(1) l e, of u]
  from inv assms(2)
  have "filter (\<lambda>t. now - Minute < t) (stored (exec (New cfg) cs) u) =
        filter (\<lambda>t. now - Minute < t) (admitted (New cfg) u cs)"
    by (simp add: w)
  moreover from inv assms(2) have "\<forall>t \<in> set (admitted (New cfg) u cs). t \<le> now" by blast
  then have "filter (\<lambda>t. now - Minute < t) (admitted (New cfg) u cs) =
             filter (\<lambda>t. now - Minute < t \<and> t \<le> now) (admitted (New cfg) u cs)"
    by (intro filter_cong) auto
  ultimately show ?thesis by (simp add: Allow_fst w)
qed

text \<open>
  Claim C9: \<^verbatim>\<open>Allow\<close> admits a call exactly when fewer than \<open>N\<close> time stamps of the
  user remain within the last minute, and it records \<open>now\<close> on admission; in a run from
  a new limiter these are the admitted calls of the user within the last minute, so
  that no window of one minute (open at its start, closed at its end) holds more than
  \<open>N\<close> admitted calls of one user; the calls of other users do not change which
  calls of a user are admitted.
\<close>

theorem C9_rate_limiter_window:
  assumes "sorted (map fst cs)"
  shows "(fst (Allow l now u) \<longleftrightarrow>
            int (length (filter (\<lambda>t. now - window l < t) (stored l u))) < limit l) \<and>
         stored (snd (Allow l now u)) u =
            filter (\<lambda>t. now - window l < t) (stored l u) @
            (if fst (Allow l now u) then [now] else []) \<and>
         ((\<forall>t \<in> fst ` set cs. t \<le> now) \<longrightarrow>
            (fst (Allow (exec (New cfg) cs) now u) \<longleftrightarrow>
             int (length (filter (\<lambda>t. now - Minute < t \<and> t \<le> now) (admitted (New cfg) u cs)))
               < limit (New cfg))) \<and>
         (\<forall>a. int (length (filter (\<lambda>t. a < t \<and> t \<le> a + Minute) (admitted (New cfg) u cs)))
                \<le> limit (New cfg)) \<and>
         admitted l u trace = admitted l u (withoutOthers u trace)"
proof -
  have l: "0 \<le> limit (New cfg)" using limit_New_pos [of cfg] by simp
  have e: "requests (New cfg) = Map.empty" by (simp add: New_def)
  have w: "window (New cfg) = Minute" by (simp add: New_def)
  have a: "fst (Allow l now u) \<longleftrightarrow>
            int (length (filter (\<lambda>t. now - window l < t) (stored l u))) < limit l"
    by (rule Allow_fst)
  have b: "stored (snd (Allow l now u)) u =
            filter (\<lambda>t. now - window l < t) (stored l u) @
            (if fst (Allow l now u) then [now] else [])"
    by (rule stored_Allow_same)
  have c: "(\<forall>t \<in> fst ` set cs. t \<le> now) \<longrightarrow>
            (fst (Allow (exec (New cfg) cs) now u) \<longleftrightarrow>
             int (length (filter (\<lambda>t. now - Minute < t \<and> t \<le> now) (admitted (New cfg) u cs)))
               < limit (New cfg))"
    using Allow_after_run [OF assms] by blast
  have d: "\<forall>a. int (length (filter (\<lambda>t. a < t \<and> t \<le> a + Minute) (admitted (New cfg) u cs)))
                \<le> limit (New cfg)"
    using limiter_invariant [OF assms l e, of u] by (simp add: w)
  have f: "admitted l u trace = admitted l u (withoutOthers u trace)"
    by (rule admitted_withoutOthers_gen) simp_all
  from a b c d f show ?thesis by blast
qed

text \<open>A limiter for two requests per minute; user 7 calls at 0 s, 10 s, 30 s and 60.5 s,
  user 8 at 20 s, and the sweep runs at 60.5 s.\<close>

definition sampleTrace :: "(int \<times> call) list" where
  "sampleTrace =
     [(0, AllowCall 7), (10000000000, AllowCall 7), (20000000000, AllowCall 8),
      (30000000000, AllowCall 7), (60500000000, CleanupTick), (60500000000, AllowCall 7)]"

lemma admitted_sampleTrace:
  "admitted (New \<lparr>RequestsPerMinute = 2\<rparr>) 7 sampleTrace = [0, 10000000000, 60500000000]"
  by (simp add: sampleTrace_def New_def Minute_def Allow_def stored_def cleanup_def Let_def)

theorem C9_rate_limiter_window_witness:
  "sorted (map fst sampleTrace) \<and>
   admitted (New \<lparr>RequestsPerMinute = 2\<rparr>) 7 sampleTrace = [0, 10000000000, 60500000000] \<and>
   int (length (filter (\<lambda>t. 500000000 < t \<and> t \<le> 500000000 + Minute)
          [0, 10000000000, 60500000000])) \<le> limit (New \<lparr>RequestsPerMinute = 2\<rparr>) \<and>
   admitted (New \<lparr>RequestsPerMinute = 2\<rparr>) 7 (withoutOthers 7 sampleTrace) =
     [0, 10000000000, 60500000000] \<and>
   fst (Allow (exec (New \<lparr>RequestsPerMinute = 2\<rparr>) sampleTrace) 71000000000 7) = True"
proof -
  let ?l = "New \<lparr>RequestsPerMinute = 2\<rparr>"
  have s: "sorted (map fst sampleTrace)" by (simp add: sampleTrace_def)
  note th = C9_rate_limiter_window [OF s, where u = 7 and now = 71000000000
      and cfg = "\<lparr>RequestsPerMinute = 2\<rparr>" and l = ?l and trace = sampleTrace]
  have b: "\<forall>t \<in> fst ` set sampleTrace. t \<le> 71000000000" by (simp add: sampleTrace_def)
  from th have "\<forall>a. int (length (filter (\<lambda>t. a < t \<and> t \<le> a + Minute) (admitted ?l 7 sampleTrace)))
                \<le> limit ?l"
    by blast
  then have w: "int (length (filter (\<lambda>t. 500000000 < t \<and> t \<le> 500000000 + Minute)
          [0, 10000000000, 60500000000])) \<le> limit ?l"
    by (simp only: admitted_sampleTrace)
  from th have "admitted ?l 7 sampleTrace = admitted ?l 7 (withoutOthers 7 sampleTrace)" by blast
  then have o: "admitted ?l 7 (withoutOthers 7 sampleTrace) = [0, 10000000000, 60500000000]"
    by (simp only: admitted_sampleTrace)
  from th b have "fst (Allow (exec ?l sampleTrace) 71000000000 7) \<longleftrightarrow>
      int (length (filter (\<lambda>t. 71000000000 - Minute < t \<and> t \<le> 71000000000)
        (admitted ?l 7 sampleTrace))) < limit ?l"
    by blast
  then have "fst (Allow (exec ?l sampleTrace) 71000000000 7) \<longleftrightarrow>
      int (length (filter (\<lambda>t. 71000000000 - Minute < t \<and> t \<le> 71000000000)
        [0, 10000000000, 60500000000])) < limit ?l"
    by (simp only: admitted_sampleTrace)
  moreover have "int (length (filter (\<lambda>t. 71000000000 - Minute < t \<and> t \<le> 71000000000)
        [0, 10000000000, 60500000000])) < limit ?l"
    by (simp add: Minute_def New_def)
  ultimately have al: "fst (Allow (exec ?l sampleTrace) 71000000000 7) = True" by blast
  from s admitted_sampleTrace w o al show ?thesis by blast
qed

text \<open>The window is open at its start: with one request per minute, calls exactly one
  minute apart are both admitted.\<close>

lemma calls_one_minute_apart:
  "admitted (New \<lparr>RequestsPerMinute = 1\<rparr>) 7 [(0, AllowCall 7), (60000000000, AllowCall 7)] =
     [0, 60000000000]"
  by (simp add: New_def Minute_def Allow_def stored_def Let_def)

end
